theory Spec2Isabelle
  imports Complex_Main "HOL-Library.Word" "HOL-Library.Multiset"
begin

section \<open>The wait-sampling collector (collector.c)\<close>

text \<open>
  A shallow embedding of \<^verbatim>\<open>collector.c\<close>: the eviction routine
  \<^verbatim>\<open>pgws_entry_dealloc\<close>, the probe \<^verbatim>\<open>probe_waits\<close> and the scheduling part of
  \<^verbatim>\<open>pgws_collector_main\<close>.

  Conventions of the model.
  \<^item> The structs \<^verbatim>\<open>ProfileHashKey\<close>, \<^verbatim>\<open>ProfileHashEntry\<close>, \<^verbatim>\<open>HistoryItem\<close> and
    \<^verbatim>\<open>History\<close> are declared in \<^verbatim>\<open>pg_wait_sampling.h\<close>; their fields are taken from
    the uses in \<^verbatim>\<open>collector.c\<close>. The observation counter and the ring cursor are
    unbounded naturals, timestamps are integers (microseconds).
  \<^item> A \<^verbatim>\<open>double\<close> is a binary64 number: the type \<open>double\<close> holds the values that
    rounding to nearest, ties to even, with 53 bits of precision and the least
    exponent of binary64 produces, and every operation rounds its exact result.
    Usage values are never negative and stay far below the largest double (an
    addition of 1.0 leaves every double from \<open>2^54\<close> on unchanged), so the type
    has neither negative numbers nor infinities.
  \<^item> The dynahash table \<^verbatim>\<open>pgws_profile_hash\<close> is a list of entries; the order of
    the list is the order in which \<^verbatim>\<open>hash_seq_search\<close> visits the entries. A hash
    table holds at most one entry per key, which is the predicate \<open>distinct_keys\<close>.
    Allocation (\<^verbatim>\<open>palloc\<close>, \<^verbatim>\<open>HASH_ENTER_NULL\<close>) is taken to succeed.
  \<^item> \<^verbatim>\<open>qsort\<close> is an insertion sort that asks the comparator it is given. C leaves
    the order of entries that compare equal open; the model keeps them in table
    order, and the table order is arbitrary.
  \<^item> The locks are not modelled: the collector is the only writer.
  \<^item> The make-space loop of \<^verbatim>\<open>probe_waits\<close> may run forever; it is a partial
    function into \<open>option\<close>, where \<open>None\<close> is "does not return".
\<close>

subsection \<open>Double precision numbers\<close>

text \<open>Rounding of a real number to the nearest integer, a tie to the even one.\<close>

definition round_half_even :: "real \<Rightarrow> int" where
  "round_half_even t =
     (if t - of_int \<lfloor>t\<rfloor> < 1 / 2 then \<lfloor>t\<rfloor>
      else if 1 / 2 < t - of_int \<lfloor>t\<rfloor> then \<lfloor>t\<rfloor> + 1
      else if even \<lfloor>t\<rfloor> then \<lfloor>t\<rfloor> else \<lfloor>t\<rfloor> + 1)"

text \<open>
  The exponent of the binade of a positive number, not below the least exponent of
  binary64, and the distance of two neighbouring doubles in that binade.
\<close>

definition double_exponent :: "real \<Rightarrow> int" where
  "double_exponent x = max \<lfloor>log 2 x\<rfloor> (- 1022)"

definition double_ulp :: "real \<Rightarrow> real" where
  "double_ulp x = 2 powr of_int (double_exponent x - 52)"

text \<open>The double nearest to a real number that is not negative.\<close>

definition double_round :: "real \<Rightarrow> real" where
  "double_round x =
     (if x \<le> 0 then 0
      else double_ulp x * of_int (round_half_even (x / double_ulp x)))"

typedef double = "range double_round"
  morphisms valof Abs_double
  by blast

text \<open>A constant of the source text, an addition and a multiplication.\<close>

definition double_of_real :: "real \<Rightarrow> double" where
  "double_of_real x = Abs_double (double_round x)"

definition double_add :: "double \<Rightarrow> double \<Rightarrow> double" where
  "double_add a b = double_of_real (valof a + valof b)"

definition double_mul :: "double \<Rightarrow> double \<Rightarrow> double" where
  "double_mul a b = double_of_real (valof a * valof b)"

subsection \<open>Constants\<close>

definition USAGE_INIT :: double where
  "USAGE_INIT = double_of_real 1"

definition USAGE_INCREASE :: double where
  "USAGE_INCREASE = double_of_real 1"

definition USAGE_DECREASE_FACTOR :: double where
  "USAGE_DECREASE_FACTOR = double_of_real (99 / 100)"

definition USAGE_DEALLOC_PERCENT :: int where
  "USAGE_DEALLOC_PERCENT = 5"

definition USAGE_DEALLOC_MIN_NUM :: int where
  "USAGE_DEALLOC_MIN_NUM = 10"

subsection \<open>Data\<close>

type_synonym TimestampTz = int
type_synonym pgwsQueryId = "64 word"

record ProfileHashKey =
  key_pid :: int
  key_wait_event_info :: "32 word"
  key_queryid :: pgwsQueryId

record ProfileHashEntry =
  key :: ProfileHashKey
  counter :: nat
  usage :: double

record HistoryItem =
  item_pid :: int
  item_wait_event_info :: "32 word"
  item_queryid :: pgwsQueryId
  item_ts :: TimestampTz

record History =
  items :: "HistoryItem list"
  index :: nat

text \<open>
  What the probe reads at slot \<open>i\<close>: the two fields of the \<^verbatim>\<open>PGPROC\<close>, the
  element \<^verbatim>\<open>pgws_proc_queryids[i]\<close>, and the value \<^verbatim>\<open>GetCurrentTimestamp()\<close> returns
  if it is called while this slot is visited.
\<close>

record ProcSlot =
  proc_pid :: int
  proc_wait_event_info :: "32 word"
  proc_queryid :: pgwsQueryId
  proc_now :: TimestampTz

text \<open>
  The configuration variables the collector reads. They are defined outside
  \<^verbatim>\<open>collector.c\<close>; the periods and the bound on the profile table are C integers
  (the source casts and compares them as such), and a theorem that needs a range
  for one of them states it. The buffer size is a natural number: it divides the
  cursor, and 0 is the only value the model has to tell apart.
\<close>

record Config =
  pgwsHistoryBufferSize :: nat
  pgwsMaxProfileEntries :: int
  pgwsWhetherProfilePid :: bool
  pgwsWhetherProfileQueryId :: bool
  pgwsHistoryPeriod :: int
  pgwsProfilePeriod :: int

text \<open>The two shared structures.\<close>

record Shared =
  pgws_history_ring :: History
  pgws_profile_hash :: "ProfileHashEntry list"

datatype error = DivisionByZero | OutOfBounds

subsection \<open>The hash table operations used by the collector\<close>

definition distinct_keys :: "ProfileHashEntry list \<Rightarrow> bool" where
  "distinct_keys tbl = distinct (map key tbl)"

text \<open>\<^verbatim>\<open>hash_search(.., HASH_FIND, ..)\<close>\<close>

definition hash_find :: "ProfileHashKey \<Rightarrow> ProfileHashEntry list \<Rightarrow> ProfileHashEntry option" where
  "hash_find k tbl = find (\<lambda>e. key e = k) tbl"

text \<open>\<^verbatim>\<open>hash_search(.., HASH_REMOVE, ..)\<close>\<close>

definition hash_remove :: "ProfileHashKey \<Rightarrow> ProfileHashEntry list \<Rightarrow> ProfileHashEntry list" where
  "hash_remove k tbl = filter (\<lambda>e. key e \<noteq> k) tbl"

text \<open>
  \<^verbatim>\<open>hash_search(.., HASH_ENTER_NULL, ..)\<close>: the entry of the key if there is one, a
  new entry otherwise. The payload of a new entry is not initialised by dynahash;
  the caller writes both fields at once.
\<close>

definition hash_enter :: "ProfileHashKey \<Rightarrow> ProfileHashEntry list \<Rightarrow> ProfileHashEntry list" where
  "hash_enter k tbl =
     (case hash_find k tbl of
        Some e \<Rightarrow> tbl
      | None \<Rightarrow> tbl @ [\<lparr>key = k, counter = 0, usage = double_of_real 0\<rparr>])"

text \<open>A write through the entry pointer a lookup has returned.\<close>

definition entry_update ::
  "ProfileHashKey \<Rightarrow> (ProfileHashEntry \<Rightarrow> ProfileHashEntry) \<Rightarrow> ProfileHashEntry list \<Rightarrow> ProfileHashEntry list" where
  "entry_update k f tbl = map (\<lambda>e. if key e = k then f e else e) tbl"

subsection \<open>Eviction: \<^verbatim>\<open>entry_cmp\<close> and \<^verbatim>\<open>pgws_entry_dealloc\<close>\<close>

definition entry_cmp :: "ProfileHashEntry \<Rightarrow> ProfileHashEntry \<Rightarrow> int" where
  "entry_cmp lhs rhs =
     (if valof (usage lhs) < valof (usage rhs) then - 1
      else if valof (usage lhs) > valof (usage rhs) then 1
      else 0)"

text \<open>
  \<^verbatim>\<open>qsort\<close>: the elements one by one into their place, an element before the
  first one that the comparator does not put before it.
\<close>

fun qsort_insert :: "('a \<Rightarrow> 'a \<Rightarrow> int) \<Rightarrow> 'a \<Rightarrow> 'a list \<Rightarrow> 'a list" where
  "qsort_insert cmp x [] = [x]"
| "qsort_insert cmp x (y # ys) =
     (if cmp x y \<le> 0 then x # y # ys else y # qsort_insert cmp x ys)"

definition qsort :: "('a \<Rightarrow> 'a \<Rightarrow> int) \<Rightarrow> 'a list \<Rightarrow> 'a list" where
  "qsort cmp xs = foldr (qsort_insert cmp) xs []"

definition qsort_entries :: "ProfileHashEntry list \<Rightarrow> ProfileHashEntry list" where
  "qsort_entries es = qsort entry_cmp es"

text \<open>The scan of the table: every entry's usage is multiplied by the decay factor.\<close>

definition decay :: "ProfileHashEntry \<Rightarrow> ProfileHashEntry" where
  "decay e = e\<lparr>usage := double_mul (usage e) USAGE_DECREASE_FACTOR\<rparr>"

text \<open>
  The victim count for a table of \<open>i\<close> entries. \<open>i\<close> is not negative, so C's
  truncating division is \<open>div\<close>. The source computes in \<^verbatim>\<open>int\<close>; the product
  \<open>i * 5\<close> stays in its range for every table that \<^verbatim>\<open>palloc\<close> can list (an
  array of at most 1 GB of pointers), so the model computes in \<open>int\<close> without a bound.
\<close>

definition nvictims_of :: "int \<Rightarrow> int" where
  "nvictims_of i =
     min (max USAGE_DEALLOC_MIN_NUM (i * USAGE_DEALLOC_PERCENT div 100)) i"

definition pgws_entry_dealloc :: "ProfileHashEntry list \<Rightarrow> ProfileHashEntry list" where
  "pgws_entry_dealloc tbl =
     (let decayed = map decay tbl;
          entries = qsort_entries decayed;
          i = int (length entries);
          nvictims = nvictims_of i
      in fold (\<lambda>v t. hash_remove (key v) t) (take (nat nvictims) entries) decayed)"

subsection \<open>The probe: \<^verbatim>\<open>probe_waits\<close>\<close>

text \<open>
  The loop \<^verbatim>\<open>while (hash_get_num_entries(..) >= pgwsMaxProfileEntries) pgws_entry_dealloc();\<close>
\<close>

partial_function (option) make_space ::
  "int \<Rightarrow> ProfileHashEntry list \<Rightarrow> ProfileHashEntry list option" where
  "make_space maxe tbl =
     (if int (length tbl) \<ge> maxe then make_space maxe (pgws_entry_dealloc tbl)
      else Some tbl)"

declare make_space.simps [code]

definition profile_key :: "Config \<Rightarrow> int \<Rightarrow> 32 word \<Rightarrow> pgwsQueryId \<Rightarrow> ProfileHashKey" where
  "profile_key cfg pid wei qid =
     \<lparr>key_pid = (if pgwsWhetherProfilePid cfg then pid else 0),
      key_wait_event_info = wei,
      key_queryid = qid\<rparr>"

text \<open>The block under \<^verbatim>\<open>if (write_profile)\<close>.\<close>

definition profile_write ::
  "Config \<Rightarrow> int \<Rightarrow> 32 word \<Rightarrow> pgwsQueryId \<Rightarrow> ProfileHashEntry list \<Rightarrow> ProfileHashEntry list option" where
  "profile_write cfg pid wei qid tbl =
     (let k = profile_key cfg pid wei qid in
      case hash_find k tbl of
        None \<Rightarrow>
          (case make_space (pgwsMaxProfileEntries cfg) tbl of
             None \<Rightarrow> None
           | Some tbl' \<Rightarrow>
               Some (entry_update k (\<lambda>e. e\<lparr>counter := 1, usage := USAGE_INIT\<rparr>)
                       (hash_enter k tbl')))
      | Some _ \<Rightarrow>
          Some (entry_update k
                  (\<lambda>e. e\<lparr>counter := counter e + 1,
                         usage := double_add (usage e) USAGE_INCREASE\<rparr>) tbl))"

text \<open>
  The block under \<^verbatim>\<open>if (write_history)\<close>. The remainder by a buffer size of 0 and
  a slot outside the array are undefined behaviour in C; here they are errors.
\<close>

definition history_write :: "Config \<Rightarrow> HistoryItem \<Rightarrow> History \<Rightarrow> error + History" where
  "history_write cfg item ring =
     (if pgwsHistoryBufferSize cfg = 0 then Inl DivisionByZero
      else
        let idx = index ring mod pgwsHistoryBufferSize cfg in
        if idx \<ge> length (items ring) then Inl OutOfBounds
        else Inr \<lparr>items = (items ring)[idx := item], index = index ring + 1\<rparr>)"

text \<open>One iteration of the loop over the \<^verbatim>\<open>PGPROC\<close> slots.\<close>

definition probe_slot ::
  "bool \<Rightarrow> bool \<Rightarrow> Config \<Rightarrow> ProcSlot \<Rightarrow> Shared \<Rightarrow> (error + Shared) option" where
  "probe_slot write_history write_profile cfg proc st =
     (let queryId = (if pgwsWhetherProfileQueryId cfg then proc_queryid proc else 0);
          wait_event_info = proc_wait_event_info proc;
          pid = proc_pid proc
      in
      if pid = 0 then Some (Inr st)
      else if wait_event_info = 0 then Some (Inr st)
      else
        case (if write_history
              then history_write cfg
                     \<lparr>item_pid = pid, item_wait_event_info = wait_event_info,
                      item_queryid = queryId, item_ts = proc_now proc\<rparr>
                     (pgws_history_ring st)
              else Inr (pgws_history_ring st)) of
          Inl e \<Rightarrow> Some (Inl e)
        | Inr ring' \<Rightarrow>
            (case (if write_profile
                   then profile_write cfg pid wait_event_info queryId (pgws_profile_hash st)
                   else Some (pgws_profile_hash st)) of
               None \<Rightarrow> None
             | Some tbl' \<Rightarrow>
                 Some (Inr \<lparr>pgws_history_ring = ring', pgws_profile_hash = tbl'\<rparr>)))"

fun probe_waits ::
  "bool \<Rightarrow> bool \<Rightarrow> Config \<Rightarrow> ProcSlot list \<Rightarrow> Shared \<Rightarrow> (error + Shared) option" where
  "probe_waits write_history write_profile cfg [] st = Some (Inr st)"
| "probe_waits write_history write_profile cfg (proc # procs) st =
     (case probe_slot write_history write_profile cfg proc st of
        None \<Rightarrow> None
      | Some (Inl e) \<Rightarrow> Some (Inl e)
      | Some (Inr st') \<Rightarrow> probe_waits write_history write_profile cfg procs st')"

subsection \<open>Scheduling: \<^verbatim>\<open>millisecs_diff\<close> and the loop of \<^verbatim>\<open>pgws_collector_main\<close>\<close>

text \<open>
  PostgreSQL's \<^verbatim>\<open>TimestampDifference\<close>: the difference of two timestamps as seconds
  and microseconds, both 0 when the second timestamp is not after the first.
\<close>

definition TimestampDifference :: "TimestampTz \<Rightarrow> TimestampTz \<Rightarrow> int \<times> int" where
  "TimestampDifference start_time stop_time =
     (let diff = stop_time - start_time in
      if diff \<le> 0 then (0, 0) else (diff div 1000000, diff mod 1000000))"

definition millisecs_diff :: "TimestampTz \<Rightarrow> TimestampTz \<Rightarrow> int" where
  "millisecs_diff tz1 tz2 =
     (case TimestampDifference tz1 tz2 of
        (secs, microsecs) \<Rightarrow> secs * 1000 + microsecs div 1000)"

text \<open>The cast \<^verbatim>\<open>(int)\<close> of an \<^verbatim>\<open>int64\<close>: the low 32 bits, read as two's complement.\<close>

definition int_cast :: "int \<Rightarrow> int" where
  "int_cast x = sint (word_of_int x :: 32 word)"

text \<open>The local variables of one iteration, as they are when the loop blocks.\<close>

record Iteration =
  write_history :: bool
  write_profile :: bool
  history_ts :: TimestampTz
  profile_ts :: TimestampTz
  history_diff :: int
  profile_diff :: int
  history_timeout :: int
  profile_timeout :: int
  actual_timeout :: int
  wl_timeout :: bool

text \<open>
  Lines 297 to 341 without the call of the probe: from the configuration, the two
  "last sample" timestamps and the current time to the flags, the new timestamps
  and the arguments of the wait (\<open>wl_timeout\<close> is the flag \<^verbatim>\<open>WL_TIMEOUT\<close>).
\<close>

definition sampler_schedule :: "Config \<Rightarrow> TimestampTz \<Rightarrow> TimestampTz \<Rightarrow> TimestampTz \<Rightarrow> Iteration" where
  "sampler_schedule cfg history_ts0 profile_ts0 current_ts =
     (let history_diff0 = millisecs_diff history_ts0 current_ts;
          profile_diff0 = millisecs_diff profile_ts0 current_ts;
          wh = (pgwsHistoryPeriod cfg \<noteq> 0 \<and> history_diff0 \<ge> pgwsHistoryPeriod cfg);
          wp = (pgwsProfilePeriod cfg \<noteq> 0 \<and> profile_diff0 \<ge> pgwsProfilePeriod cfg);
          hts = (if wh then current_ts else history_ts0);
          hdiff = (if wh then 0 else history_diff0);
          pts = (if wp then current_ts else profile_ts0);
          pdiff = (if wp then 0 else profile_diff0);
          htimeout = (if pgwsHistoryPeriod cfg \<ge> int_cast hdiff
                      then pgwsHistoryPeriod cfg - int_cast hdiff else 0);
          ptimeout = (if pgwsProfilePeriod cfg \<ge> int_cast pdiff
                      then pgwsProfilePeriod cfg - int_cast pdiff else 0);
          atimeout =
            (if pgwsProfilePeriod cfg \<noteq> 0 \<and> pgwsHistoryPeriod cfg = 0 then ptimeout
             else if pgwsHistoryPeriod cfg \<noteq> 0 \<and> pgwsProfilePeriod cfg = 0 then htimeout
             else if pgwsHistoryPeriod cfg \<noteq> 0 \<and> pgwsProfilePeriod cfg \<noteq> 0
               then min htimeout ptimeout
             else 0)
      in \<lparr>write_history = wh, write_profile = wp,
          history_ts = hts, profile_ts = pts,
          history_diff = hdiff, profile_diff = pdiff,
          history_timeout = htimeout, profile_timeout = ptimeout,
          actual_timeout = atimeout,
          wl_timeout = (pgwsHistoryPeriod cfg \<noteq> 0 \<or> pgwsProfilePeriod cfg \<noteq> 0)\<rparr>)"

text \<open>
  The same lines with the probe: the shared structures after the iteration, and the
  schedule; \<open>None\<close> when the probe does not return.
\<close>

definition collector_iteration ::
  "Config \<Rightarrow> ProcSlot list \<Rightarrow> TimestampTz \<Rightarrow> TimestampTz \<Rightarrow> TimestampTz \<Rightarrow> Shared
     \<Rightarrow> (error + Iteration \<times> Shared) option" where
  "collector_iteration cfg procs history_ts0 profile_ts0 current_ts st =
     (let it = sampler_schedule cfg history_ts0 profile_ts0 current_ts in
      if write_history it \<or> write_profile it then
        (case probe_waits (write_history it) (write_profile it) cfg procs st of
           None \<Rightarrow> None
         | Some (Inl e) \<Rightarrow> Some (Inl e)
         | Some (Inr st') \<Rightarrow> Some (Inr (it, st')))
      else Some (Inr (it, st)))"

subsection \<open>What a pass observes\<close>

text \<open>The slots a pass skips, and the item and the key it builds from the others.\<close>

definition slot_skipped :: "ProcSlot \<Rightarrow> bool" where
  "slot_skipped proc = (proc_pid proc = 0 \<or> proc_wait_event_info proc = 0)"

definition slot_queryid :: "Config \<Rightarrow> ProcSlot \<Rightarrow> pgwsQueryId" where
  "slot_queryid cfg proc = (if pgwsWhetherProfileQueryId cfg then proc_queryid proc else 0)"

definition slot_item :: "Config \<Rightarrow> ProcSlot \<Rightarrow> HistoryItem" where
  "slot_item cfg proc =
     \<lparr>item_pid = proc_pid proc, item_wait_event_info = proc_wait_event_info proc,
      item_queryid = slot_queryid cfg proc, item_ts = proc_now proc\<rparr>"

definition slot_key :: "Config \<Rightarrow> ProcSlot \<Rightarrow> ProfileHashKey" where
  "slot_key cfg proc =
     profile_key cfg (proc_pid proc) (proc_wait_event_info proc) (slot_queryid cfg proc)"

definition written_items :: "Config \<Rightarrow> ProcSlot list \<Rightarrow> HistoryItem list" where
  "written_items cfg procs = map (slot_item cfg) (filter (\<lambda>p. \<not> slot_skipped p) procs)"

definition observed_keys :: "Config \<Rightarrow> ProcSlot list \<Rightarrow> ProfileHashKey list" where
  "observed_keys cfg procs = map (slot_key cfg) (filter (\<lambda>p. \<not> slot_skipped p) procs)"

text \<open>The history writes of a pass, one after the other.\<close>

fun history_writes :: "Config \<Rightarrow> HistoryItem list \<Rightarrow> History \<Rightarrow> error + History" where
  "history_writes cfg [] ring = Inr ring"
| "history_writes cfg (item # its) ring =
     (case history_write cfg item ring of
        Inl e \<Rightarrow> Inl e
      | Inr ring' \<Rightarrow> history_writes cfg its ring')"

text \<open>
  The calls of the probe that the loop of \<^verbatim>\<open>pgws_collector_main\<close> makes one after the
  other, each with its two flags and the slots as they are during that call.
\<close>

fun probe_passes ::
  "Config \<Rightarrow> (bool \<times> bool \<times> ProcSlot list) list \<Rightarrow> Shared \<Rightarrow> (error + Shared) option" where
  "probe_passes cfg [] st = Some (Inr st)"
| "probe_passes cfg ((wh, wp, procs) # passes) st =
     (case probe_waits wh wp cfg procs st of
        None \<Rightarrow> None
      | Some (Inl e) \<Rightarrow> Some (Inl e)
      | Some (Inr st') \<Rightarrow> probe_passes cfg passes st')"

text \<open>The items and the keys of all these calls, in the order of the calls.\<close>

fun passes_items :: "Config \<Rightarrow> (bool \<times> bool \<times> ProcSlot list) list \<Rightarrow> HistoryItem list" where
  "passes_items cfg [] = []"
| "passes_items cfg ((wh, wp, procs) # passes) =
     (if wh then written_items cfg procs else []) @ passes_items cfg passes"

fun passes_keys :: "Config \<Rightarrow> (bool \<times> bool \<times> ProcSlot list) list \<Rightarrow> ProfileHashKey list" where
  "passes_keys cfg [] = []"
| "passes_keys cfg ((wh, wp, procs) # passes) =
     (if wp then observed_keys cfg procs else []) @ passes_keys cfg passes"

text \<open>
  What \<open>n\<close> observations of the key \<open>k\<close> without eviction make of the entry a
  lookup of \<open>k\<close> has found (\<open>None\<close>: no entry): each observation after the one that
  creates the entry adds the increase constant to the usage.
\<close>

definition tally :: "nat \<Rightarrow> ProfileHashKey \<Rightarrow> ProfileHashEntry option \<Rightarrow> ProfileHashEntry option" where
  "tally n k found =
     (if n = 0 then found
      else case found of
        None \<Rightarrow>
          Some \<lparr>key = k, counter = n,
                usage = ((\<lambda>u. double_add u USAGE_INCREASE) ^^ (n - 1)) USAGE_INIT\<rparr>
      | Some e \<Rightarrow>
          Some (e\<lparr>counter := counter e + n,
                  usage := ((\<lambda>u. double_add u USAGE_INCREASE) ^^ n) (usage e)\<rparr>))"

text \<open>
  Observations of the keys \<open>ks\<close> on the table \<open>tbl\<close> run no eviction: a key that is
  in the table never does, and a new key does when the table has reached the bound,
  so none runs when every key is in the table already, or when the keys of the table
  and the observed keys together are not more than the bound.
\<close>

definition keys_fit :: "Config \<Rightarrow> ProfileHashEntry list \<Rightarrow> ProfileHashKey list \<Rightarrow> bool" where
  "keys_fit cfg tbl ks =
     (set ks \<subseteq> key ` set tbl
      \<or> int (card (key ` set tbl \<union> set ks)) \<le> pgwsMaxProfileEntries cfg)"

subsection \<open>Example data\<close>

definition example_key :: "int \<Rightarrow> ProfileHashKey" where
  "example_key n = \<lparr>key_pid = n, key_wait_event_info = 1, key_queryid = 0\<rparr>"

definition example_entry :: "int \<Rightarrow> nat \<Rightarrow> real \<Rightarrow> ProfileHashEntry" where
  "example_entry n c u = \<lparr>key = example_key n, counter = c, usage = double_of_real u\<rparr>"

definition example_cfg :: "nat \<Rightarrow> int \<Rightarrow> Config" where
  "example_cfg bufsize maxe =
     \<lparr>pgwsHistoryBufferSize = bufsize, pgwsMaxProfileEntries = maxe,
      pgwsWhetherProfilePid = True, pgwsWhetherProfileQueryId = False,
      pgwsHistoryPeriod = 100, pgwsProfilePeriod = 250\<rparr>"

definition example_slot :: "int \<Rightarrow> 32 word \<Rightarrow> ProcSlot" where
  "example_slot p w =
     \<lparr>proc_pid = p, proc_wait_event_info = w, proc_queryid = 77, proc_now = 1000 + p\<rparr>"

definition example_item :: "int \<Rightarrow> HistoryItem" where
  "example_item p =
     \<lparr>item_pid = p, item_wait_event_info = 1, item_queryid = 0, item_ts = 1000 + p\<rparr>"

definition example_shared :: "HistoryItem list \<Rightarrow> nat \<Rightarrow> ProfileHashEntry list \<Rightarrow> Shared" where
  "example_shared its n tbl =
     \<lparr>pgws_history_ring = \<lparr>items = its, index = n\<rparr>, pgws_profile_hash = tbl\<rparr>"

definition example_table :: "ProfileHashEntry list" where
  "example_table =
     [example_entry 1 4 7, example_entry 2 2 3, example_entry 3 9 12, example_entry 4 1 1,
      example_entry 5 6 9, example_entry 6 3 5, example_entry 7 8 11, example_entry 8 1 2,
      example_entry 9 5 8, example_entry 10 2 4, example_entry 11 7 10, example_entry 12 3 6]"

text \<open>
  Two neighbouring doubles near 50, and a table in which they are the two entries of
  highest usage.
\<close>

definition tie_high_usage :: double where
  "tie_high_usage = double_of_real (7036874417766444 / 2 ^ 47)"

definition tie_low_usage :: double where
  "tie_low_usage = double_of_real (7036874417766443 / 2 ^ 47)"

definition tie_high :: ProfileHashEntry where
  "tie_high = \<lparr>key = example_key 10, counter = 50, usage = tie_high_usage\<rparr>"

definition tie_low :: ProfileHashEntry where
  "tie_low = \<lparr>key = example_key 11, counter = 50, usage = tie_low_usage\<rparr>"

definition tie_table :: "ProfileHashEntry list" where
  "tie_table =
     [example_entry 1 1 1, example_entry 2 2 2, example_entry 3 3 3, example_entry 4 4 4,
      example_entry 5 5 5, example_entry 6 6 6, example_entry 7 7 7, example_entry 8 8 8,
      example_entry 9 9 9, tie_high, tie_low]"

text \<open>The same entries with the two neighbours in the other order.\<close>

definition tie_table_swapped :: "ProfileHashEntry list" where
  "tie_table_swapped =
     [example_entry 1 1 1, example_entry 2 2 2, example_entry 3 3 3, example_entry 4 4 4,
      example_entry 5 5 5, example_entry 6 6 6, example_entry 7 7 7, example_entry 8 8 8,
      example_entry 9 9 9, tie_low, tie_high]"

section \<open>Rounding to double precision\<close>

subsection \<open>Rounding to an integer\<close>

lemma round_half_even_of_int: "round_half_even (of_int k) = k"
  by (simp add: round_half_even_def)

lemma round_half_even_bounds: "\<lfloor>t\<rfloor> \<le> round_half_even t \<and> round_half_even t \<le> \<lfloor>t\<rfloor> + 1"
  by (simp add: round_half_even_def)

lemma round_half_even_mono:
  assumes "s \<le> t"
  shows "round_half_even s \<le> round_half_even t"
proof (cases "\<lfloor>s\<rfloor> = \<lfloor>t\<rfloor>")
  case True
  with assms show ?thesis
    by (auto simp: round_half_even_def)
next
  case False
  with assms have "\<lfloor>s\<rfloor> < \<lfloor>t\<rfloor>"
    by (simp add: floor_mono order.strict_iff_order)
  then have "round_half_even s \<le> \<lfloor>t\<rfloor>"
    using round_half_even_bounds [of s] by linarith
  then show ?thesis
    using round_half_even_bounds [of t] by linarith
qed

lemma round_half_even_ge: "of_int k \<le> t \<Longrightarrow> k \<le> round_half_even t"
  using round_half_even_mono [of "of_int k" t] by (simp add: round_half_even_of_int)

lemma round_half_even_le: "t \<le> of_int k \<Longrightarrow> round_half_even t \<le> k"
  using round_half_even_mono [of t "of_int k"] by (simp add: round_half_even_of_int)

subsection \<open>Binades\<close>

lemma double_ulp_pos: "0 < double_ulp x"
  by (simp add: double_ulp_def)

lemma log2_bounds:
  assumes "0 < x"
  shows "2 powr of_int \<lfloor>log 2 x\<rfloor> \<le> x" and "x < 2 powr of_int (\<lfloor>log 2 x\<rfloor> + 1)"
  using floor_log_eq_powr_iff [of x 2 "\<lfloor>log 2 x\<rfloor>"] assms by simp_all

lemma floor_log2_eq:
  assumes "2 powr of_int e \<le> x" and "x < 2 powr of_int (e + 1)"
  shows "\<lfloor>log 2 x\<rfloor> = e"
proof -
  have "0 < x" using assms(1) by (smt (verit) powr_gt_zero)
  then show ?thesis
    using floor_log_eq_powr_iff [of x 2 e] assms by simp
qed

lemma two_powr_add: "(2::real) powr of_int (a + b) = 2 powr of_int a * 2 powr of_int b"
  by (simp add: powr_add)

lemma two_powr_nat: "(2::real) powr of_int (int n) = 2 ^ n"
  by (simp add: powr_realpow)

lemma two_powr_split: "(2::real) powr of_int (e + k) = 2 powr of_int (e - 52) * 2 powr of_int (k + 52)"
  using two_powr_add [of "e - 52" "k + 52"] by simp

lemma two_powr_52: "(2::real) powr of_int 52 = 2 ^ 52" and two_powr_53: "(2::real) powr of_int 53 = 2 ^ 53"
  using two_powr_nat [of 52] two_powr_nat [of 53] by simp_all

lemma double_exponent_eq:
  assumes "2 powr of_int e \<le> x" and "x < 2 powr of_int (e + 1)" and "- 1022 \<le> e"
  shows "double_exponent x = e"
  using floor_log2_eq [OF assms(1,2)] assms(3) by (simp add: double_exponent_def)

lemma double_exponent_subnormal:
  assumes "0 < x" and "x < 2 powr of_int (- 1022)"
  shows "double_exponent x = - 1022"
proof -
  have "\<lfloor>log 2 x\<rfloor> < - 1022"
  proof (rule ccontr)
    assume "\<not> \<lfloor>log 2 x\<rfloor> < - 1022"
    then have "(2::real) powr of_int (- 1022) \<le> 2 powr of_int \<lfloor>log 2 x\<rfloor>"
      by (simp del: of_int_minus of_int_numeral)
    also have "\<dots> \<le> x" using assms(1) by (rule log2_bounds)
    finally show False using assms(2) by simp
  qed
  then show ?thesis by (simp add: double_exponent_def)
qed

lemma ratio_lt:
  assumes "0 < x"
  shows "x / double_ulp x < 2 ^ 53"
proof -
  let ?e = "\<lfloor>log 2 x\<rfloor>"
  have "x < 2 powr of_int (?e + 1)" using assms by (rule log2_bounds)
  also have "\<dots> \<le> 2 powr of_int (double_exponent x + 1)"
    by (simp add: double_exponent_def del: of_int_add)
  also have "\<dots> = double_ulp x * 2 ^ 53"
    using two_powr_split [of "double_exponent x" 1] two_powr_53 by (simp add: double_ulp_def)
  finally show ?thesis
    using double_ulp_pos [of x] by (simp add: pos_divide_less_eq mult.commute)
qed

lemma ratio_ge:
  assumes "0 < x" and "- 1022 \<le> \<lfloor>log 2 x\<rfloor>"
  shows "2 ^ 52 \<le> x / double_ulp x"
proof -
  from assms(2) have e: "double_exponent x = \<lfloor>log 2 x\<rfloor>"
    by (simp add: double_exponent_def)
  have "double_ulp x * 2 ^ 52 = 2 powr of_int (double_exponent x)"
    using two_powr_split [of "double_exponent x" 0] two_powr_52 by (simp add: double_ulp_def)
  also have "\<dots> \<le> x" unfolding e using assms(1) by (rule log2_bounds)
  finally show ?thesis
    using double_ulp_pos [of x] by (simp add: pos_le_divide_eq mult.commute)
qed

subsection \<open>Rounding is idempotent and monotone\<close>

text \<open>A multiple of the unit of a binade, with a mantissa of at most 53 bits, is left unchanged.\<close>

lemma double_round_grid:
  assumes E: "- 1022 \<le> E" and r: "0 < r" "r \<le> 2 ^ 53"
    and norm: "2 ^ 52 \<le> r \<or> E = - 1022"
  shows "double_round (2 powr of_int (E - 52) * of_int r) = 2 powr of_int (E - 52) * of_int r"
proof -
  let ?u = "(2::real) powr of_int (E - 52)"
  let ?x = "?u * of_int r"
  have u: "0 < ?u" by simp
  have x: "0 < ?x" using r(1) by simp
  have uE: "?u * 2 ^ 52 = 2 powr of_int E"
    using two_powr_split [of E 0] two_powr_52 by simp
  have uE1: "?u * 2 ^ 53 = 2 powr of_int (E + 1)"
    using two_powr_split [of E 1] two_powr_53 by simp
  consider (sub) "r < 2 ^ 52" | (normal) "2 ^ 52 \<le> r" "r < 2 ^ 53" | (top) "r = 2 ^ 53"
    using r(2) by linarith
  then have "double_ulp ?x * of_int (round_half_even (?x / double_ulp ?x)) = ?x"
  proof cases
    case sub
    with norm have Emin: "E = - 1022" by simp
    from sub have "(of_int r :: real) < 2 ^ 52" by (metis of_int_less_numeral_power_cancel_iff)
    then have "?x < ?u * 2 ^ 52" using u by simp
    then have "?x < 2 powr of_int E" by (simp only: uE)
    then have "?x < 2 powr of_int (- 1022)" by (simp only: Emin)
    with x have "double_exponent ?x = - 1022" by (rule double_exponent_subnormal)
    then have "double_ulp ?x = ?u" by (simp add: double_ulp_def Emin)
    then show ?thesis using u by (simp add: round_half_even_of_int)
  next
    case normal
    from normal(1) have "(2::real) ^ 52 \<le> of_int r" by (metis numeral_power_le_of_int_cancel_iff)
    then have "?u * 2 ^ 52 \<le> ?x" using u by simp
    then have lo: "2 powr of_int E \<le> ?x" unfolding uE .
    from normal(2) have "(of_int r :: real) < 2 ^ 53" by (metis of_int_less_numeral_power_cancel_iff)
    then have "?x < ?u * 2 ^ 53" using u by simp
    then have hi: "?x < 2 powr of_int (E + 1)" unfolding uE1 .
    from lo hi E have "double_exponent ?x = E" by (rule double_exponent_eq)
    then have "double_ulp ?x = ?u" by (simp add: double_ulp_def)
    then show ?thesis using u by (simp add: round_half_even_of_int)
  next
    case top
    then have xe: "?x = 2 powr of_int (E + 1)"
      using uE1 by simp
    have "2 powr of_int (E + 1) \<le> ?x" "?x < 2 powr of_int (E + 1 + 1)"
      unfolding xe by simp_all
    with E have "double_exponent ?x = E + 1" by (intro double_exponent_eq) simp_all
    then have ulp: "double_ulp ?x = ?u * 2"
      using two_powr_add [of "E - 52" 1] by (simp add: double_ulp_def)
    have "?x / (?u * 2) = of_int (2 ^ 52)"
      using top u by simp
    then have "round_half_even (?x / double_ulp ?x) = 2 ^ 52"
      unfolding ulp by (simp only: round_half_even_of_int)
    then have "double_ulp ?x * of_int (round_half_even (?x / double_ulp ?x))
        = (?u * 2) * of_int (2 ^ 52)"
      by (simp only: ulp)
    also have "\<dots> = ?x"
      by (simp add: top)
    finally show ?thesis .
  qed
  with x show ?thesis by (simp add: double_round_def)
qed

text \<open>The result of a rounding is on the grid of its binade.\<close>

lemma double_round_on_grid:
  assumes "0 < x"
  shows "round_half_even (x / double_ulp x) = 0
    \<or> (0 < round_half_even (x / double_ulp x) \<and> round_half_even (x / double_ulp x) \<le> 2 ^ 53
        \<and> (2 ^ 52 \<le> round_half_even (x / double_ulp x) \<or> double_exponent x = - 1022))"
proof -
  let ?t = "x / double_ulp x"
  have t0: "0 < ?t" using assms double_ulp_pos [of x] by simp
  then have "0 \<le> round_half_even ?t"
    using round_half_even_ge [of 0 ?t] by simp
  moreover have "round_half_even ?t \<le> 2 ^ 53"
    using ratio_lt [OF assms] by (intro round_half_even_le) simp
  moreover have "2 ^ 52 \<le> round_half_even ?t \<or> double_exponent x = - 1022"
  proof (cases "- 1022 \<le> \<lfloor>log 2 x\<rfloor>")
    case True
    from ratio_ge [OF assms True] have "2 ^ 52 \<le> round_half_even ?t"
      by (intro round_half_even_ge) simp
    then show ?thesis ..
  next
    case False
    then show ?thesis by (simp add: double_exponent_def)
  qed
  ultimately show ?thesis by linarith
qed

lemma double_exponent_ge: "- 1022 \<le> double_exponent x"
  by (simp add: double_exponent_def)

lemma double_round_idem: "double_round (double_round x) = double_round x"
proof (cases "0 < x")
  case False
  then show ?thesis by (simp add: double_round_def)
next
  case True
  let ?r = "round_half_even (x / double_ulp x)"
  have fl: "double_round x = 2 powr of_int (double_exponent x - 52) * of_int ?r"
    using True by (simp add: double_round_def double_ulp_def)
  from double_round_on_grid [OF True] show ?thesis
  proof
    assume "?r = 0"
    with fl show ?thesis by (simp add: double_round_def)
  next
    assume "0 < ?r \<and> ?r \<le> 2 ^ 53 \<and> (2 ^ 52 \<le> ?r \<or> double_exponent x = - 1022)"
    then show ?thesis
      unfolding fl by (intro double_round_grid double_exponent_ge) simp_all
  qed
qed

lemma double_round_nonneg: "0 \<le> double_round x"
proof (cases "0 < x")
  case True
  then have "0 < x / double_ulp x" using double_ulp_pos [of x] by simp
  then have "0 \<le> round_half_even (x / double_ulp x)"
    using round_half_even_ge [of 0 "x / double_ulp x"] by simp
  with True show ?thesis
    using double_ulp_pos [of x] by (simp add: double_round_def)
qed (simp add: double_round_def)

lemma double_exponent_mono:
  assumes "0 < a" and "a \<le> b"
  shows "double_exponent a \<le> double_exponent b"
proof -
  have "log 2 a \<le> log 2 b" using assms by simp
  then have "\<lfloor>log 2 a\<rfloor> \<le> \<lfloor>log 2 b\<rfloor>" by (rule floor_mono)
  then show ?thesis by (simp add: double_exponent_def)
qed

lemma double_round_mono:
  assumes "a \<le> b"
  shows "double_round a \<le> double_round b"
proof (cases "0 < a")
  case False
  then have "double_round a = 0" by (simp add: double_round_def)
  then show ?thesis using double_round_nonneg [of b] by simp
next
  case True
  with assms have b: "0 < b" by simp
  have le: "double_exponent a \<le> double_exponent b"
    using True assms by (rule double_exponent_mono)
  show ?thesis
  proof (cases "double_exponent a = double_exponent b")
    case same: True
    then have u: "double_ulp a = double_ulp b" by (simp add: double_ulp_def)
    have "a / double_ulp b \<le> b / double_ulp b"
      using assms double_ulp_pos [of b] by (simp add: divide_right_mono)
    then have "round_half_even (a / double_ulp b) \<le> round_half_even (b / double_ulp b)"
      by (rule round_half_even_mono)
    then show ?thesis
      using True b double_ulp_pos [of b] by (simp add: double_round_def u)
  next
    case False
    with le have lt: "double_exponent a + 1 \<le> double_exponent b" by simp
    then have "- 1022 < double_exponent b" using double_exponent_ge [of a] by linarith
    then have nb: "- 1022 \<le> \<lfloor>log 2 b\<rfloor>" unfolding double_exponent_def by linarith
    have "round_half_even (a / double_ulp a) \<le> 2 ^ 53"
      using ratio_lt [OF True] by (intro round_half_even_le) simp
    then have "(of_int (round_half_even (a / double_ulp a)) :: real) \<le> 2 ^ 53"
      by (metis of_int_le_numeral_power_cancel_iff)
    then have "double_round a \<le> double_ulp a * 2 ^ 53"
      using True double_ulp_pos [of a] by (simp add: double_round_def)
    also have "\<dots> = 2 powr of_int (double_exponent a + 1)"
      using two_powr_split [of "double_exponent a" 1] two_powr_53 by (simp add: double_ulp_def)
    also have "\<dots> \<le> 2 powr of_int (double_exponent b)"
      using lt by (simp del: of_int_add)
    also have "\<dots> = double_ulp b * 2 ^ 52"
      using two_powr_split [of "double_exponent b" 0] two_powr_52 by (simp add: double_ulp_def)
    also have "\<dots> \<le> double_round b"
    proof -
      have "2 ^ 52 \<le> round_half_even (b / double_ulp b)"
        using ratio_ge [OF b nb] by (intro round_half_even_ge) simp
      then have "(2::real) ^ 52 \<le> of_int (round_half_even (b / double_ulp b))"
        by (metis numeral_power_le_of_int_cancel_iff)
      then show ?thesis
        using b double_ulp_pos [of b] by (simp add: double_round_def)
    qed
    finally show ?thesis .
  qed
qed

subsection \<open>Natural numbers and evaluation\<close>

lemma double_round_nat:
  assumes "n \<le> 2 ^ 53"
  shows "double_round (real n) = real n"
proof (cases "n = 0")
  case True
  then show ?thesis by (simp add: double_round_def)
next
  case False
  then have "1 \<le> n" by simp
  with ex_power_ivl1 [of 2 n] obtain k where k: "2 ^ k \<le> n" "n < 2 ^ (k + 1)"
    by auto
  from k(1) assms have "(2::nat) ^ k \<le> 2 ^ 53" by (rule order_trans)
  have k53: "k \<le> 53"
  proof (rule ccontr)
    assume "\<not> k \<le> 53"
    then have "54 \<le> k" by simp
    then have "(2::nat) ^ 54 \<le> 2 ^ k" by (rule power_increasing) simp
    with \<open>2 ^ k \<le> 2 ^ 53\<close> show False by simp
  qed
  show ?thesis
  proof (cases "k = 53")
    case True
    with k(1) assms have n: "n = 2 ^ 53" by simp
    have "double_round (2 powr of_int (52 - 52) * of_int (2 ^ 53)) = 2 powr of_int (52 - 52) * of_int (2 ^ 53)"
      by (rule double_round_grid) simp_all
    then show ?thesis by (simp add: n)
  next
    case False
    with k53 have k52: "k \<le> 52" by simp
    let ?r = "int (n * 2 ^ (52 - k))"
    have pw: "(2::nat) ^ k * 2 ^ (52 - k) = 2 ^ 52"
      using k52 by (simp flip: power_add)
    have lo: "2 ^ 52 \<le> ?r"
    proof -
      have "(2::nat) ^ k * 2 ^ (52 - k) \<le> n * 2 ^ (52 - k)" using k(1) by simp
      then have "(2::nat) ^ 52 \<le> n * 2 ^ (52 - k)" by (simp only: pw)
      then show ?thesis by (metis numeral_power_le_of_nat_cancel_iff)
    qed
    have hi: "?r \<le> 2 ^ 53"
    proof -
      have "n * 2 ^ (52 - k) \<le> 2 ^ (k + 1) * 2 ^ (52 - k)" using k(2) by simp
      also have "\<dots> = 2 * (2 ^ k * 2 ^ (52 - k))" by simp
      also have "\<dots> = 2 ^ 53" by (simp only: pw) simp
      finally show ?thesis by (metis of_nat_le_numeral_power_cancel_iff)
    qed
    have val: "2 powr of_int (int k - 52) * of_int ?r = real n"
    proof -
      have "(2::real) powr of_int (int k - 52) * 2 powr of_int (int (52 - k)) = 2 powr of_int 0"
        using k52 by (simp flip: powr_add)
      then have "(2::real) powr of_int (int k - 52) * 2 ^ (52 - k) = 1"
        by (simp add: powr_realpow)
      then have "real n * (2 powr of_int (int k - 52) * 2 ^ (52 - k)) = real n"
        by simp
      then show ?thesis by (simp add: mult_ac)
    qed
    have "double_round (2 powr of_int (int k - 52) * of_int ?r)
        = 2 powr of_int (int k - 52) * of_int ?r"
      using lo hi by (intro double_round_grid) simp_all
    then show ?thesis by (simp only: val)
  qed
qed

lemma double_round_eval:
  assumes "2 ^ 52 \<le> x * 2 ^ s" and "x * 2 ^ s < 2 ^ 53" and "s \<le> 1074"
  shows "double_round x = of_int (round_half_even (x * 2 ^ s)) / 2 ^ s"
proof -
  let ?e = "52 - int s"
  have inv: "(2::real) powr of_int (?e - 52) = 1 / 2 ^ s"
  proof -
    have "(2::real) powr of_int (?e - 52) = 2 powr - of_int (int s)" by simp
    also have "\<dots> = 1 / 2 powr of_int (int s)" by (simp only: powr_minus_divide)
    finally show ?thesis by (simp only: two_powr_nat)
  qed
  have e0: "(2::real) powr of_int ?e = 2 ^ 52 / 2 ^ s"
    using two_powr_split [of ?e 0] two_powr_52 inv by simp
  have e1: "(2::real) powr of_int (?e + 1) = 2 ^ 53 / 2 ^ s"
    using two_powr_split [of ?e 1] two_powr_53 inv by simp
  have "0 < x"
  proof (rule ccontr)
    assume "\<not> 0 < x"
    then have "x * 2 ^ s \<le> 0" by (simp add: mult_le_0_iff)
    with assms(1) show False by simp
  qed
  have "2 powr of_int ?e \<le> x" "x < 2 powr of_int (?e + 1)"
    using assms(1,2) unfolding e0 e1 by (simp_all add: pos_divide_le_eq pos_less_divide_eq)
  moreover have "- 1022 \<le> ?e" using assms(3) by simp
  ultimately have "double_exponent x = ?e" by (rule double_exponent_eq)
  then have "double_ulp x = 1 / 2 ^ s" by (simp only: double_ulp_def inv)
  with \<open>0 < x\<close> show ?thesis by (simp add: double_round_def)
qed

subsection \<open>The operations\<close>

lemma valof_double_of_real: "valof (double_of_real x) = double_round x"
  by (simp add: double_of_real_def Abs_double_inverse)

lemma double_round_valof: "double_round (valof d) = valof d"
  using valof [of d] by (auto simp: double_round_idem)

lemma valof_nonneg: "0 \<le> valof d"
  using double_round_nonneg [of "valof d"] by (simp add: double_round_valof)

lemma double_eqI: "valof a = valof b \<Longrightarrow> a = b"
  by (simp add: valof_inject)

lemma valof_double_add: "valof (double_add a b) = double_round (valof a + valof b)"
  by (simp add: double_add_def valof_double_of_real)

lemma valof_double_mul: "valof (double_mul a b) = double_round (valof a * valof b)"
  by (simp add: double_mul_def valof_double_of_real)

lemma double_add_ge: "valof a \<le> valof (double_add a b)"
proof -
  have "double_round (valof a) \<le> double_round (valof a + valof b)"
    using valof_nonneg [of b] by (intro double_round_mono) simp
  then show ?thesis by (simp add: valof_double_add double_round_valof)
qed

lemma double_mul_le: "valof b \<le> 1 \<Longrightarrow> valof (double_mul a b) \<le> valof a"
proof -
  assume "valof b \<le> 1"
  then have "valof a * valof b \<le> valof a * 1"
    using valof_nonneg [of a] by (intro mult_left_mono)
  then have "double_round (valof a * valof b) \<le> double_round (valof a)"
    by (intro double_round_mono) simp
  then show ?thesis by (simp add: valof_double_mul double_round_valof)
qed

lemma valof_double_of_nat: "n \<le> 2 ^ 53 \<Longrightarrow> valof (double_of_real (real n)) = real n"
  by (simp add: valof_double_of_real double_round_nat)

lemma double_add_nat:
  "a + b \<le> 2 ^ 53 \<Longrightarrow>
     double_add (double_of_real (real a)) (double_of_real (real b)) = double_of_real (real (a + b))"
proof (rule double_eqI)
  assume "a + b \<le> 2 ^ 53"
  then have "valof (double_of_real (real a)) = real a" "valof (double_of_real (real b)) = real b"
    by (simp_all add: valof_double_of_nat)
  then show "valof (double_add (double_of_real (real a)) (double_of_real (real b)))
      = valof (double_of_real (real (a + b)))"
    by (simp add: valof_double_add valof_double_of_real)
qed

lemma double_add_one_one:
  "double_add (double_of_real 1) (double_of_real 1) = double_of_real 2"
  using double_add_nat [of 1 1] by simp

lemma double_add_numeral_one:
  "numeral w + 1 \<le> (2 ^ 53 :: nat) \<Longrightarrow>
     double_add (double_of_real (numeral w)) (double_of_real 1) = double_of_real (numeral w + 1)"
  using double_add_nat [of "numeral w" 1] by simp

lemmas double_add_numerals = double_add_one_one double_add_numeral_one

lemma valof_USAGE_INIT: "valof USAGE_INIT = 1"
  using valof_double_of_nat [of 1] by (simp add: USAGE_INIT_def)

lemma valof_USAGE_INCREASE: "valof USAGE_INCREASE = 1"
  using valof_double_of_nat [of 1] by (simp add: USAGE_INCREASE_def)

lemma valof_USAGE_DECREASE_FACTOR: "valof USAGE_DECREASE_FACTOR = 8917127262193582 / 2 ^ 53"
  unfolding USAGE_DECREASE_FACTOR_def valof_double_of_real
  by (subst double_round_eval [where s = 53]) (simp_all add: round_half_even_def)

text \<open>Repeated addition of the increase constant is exact up to \<open>2^53\<close>.\<close>

lemma valof_add_increase:
  assumes "valof u = real m" and "m + n \<le> 2 ^ 53"
  shows "valof (((\<lambda>u. double_add u USAGE_INCREASE) ^^ n) u) = real (m + n)"
  using assms(2)
proof (induction n)
  case 0
  then show ?case by (simp add: assms(1))
next
  case (Suc n)
  then have "valof (((\<lambda>u. double_add u USAGE_INCREASE) ^^ n) u) = real (m + n)"
    by simp
  then have "valof (((\<lambda>u. double_add u USAGE_INCREASE) ^^ Suc n) u)
      = double_round (real (m + Suc n))"
    by (simp add: valof_double_add valof_USAGE_INCREASE add.commute)
  also have "\<dots> = real (m + Suc n)"
    using Suc.prems by (rule double_round_nat)
  finally show ?case .
qed

subsection \<open>Values of the examples\<close>

lemma valof_double_of_one: "valof (double_of_real 1) = 1"
  using valof_double_of_nat [of 1] by simp

lemma valof_double_of_numeral:
  "numeral w \<le> (2 ^ 53 :: nat) \<Longrightarrow> valof (double_of_real (numeral w)) = numeral w"
  using valof_double_of_nat [of "numeral w"] by simp

lemma valof_decay_1:
  "valof (double_mul (double_of_real 1) USAGE_DECREASE_FACTOR) = 8917127262193582 / 2 ^ 53"
  unfolding valof_double_mul valof_USAGE_DECREASE_FACTOR
  by (subst double_round_eval [where s = 53])
    (simp_all add: round_half_even_def valof_double_of_one)

lemma valof_decay_2:
  "valof (double_mul (double_of_real 2) USAGE_DECREASE_FACTOR) = 8917127262193582 / 2 ^ 52"
  unfolding valof_double_mul valof_USAGE_DECREASE_FACTOR
  by (subst double_round_eval [where s = 52])
    (simp_all add: round_half_even_def valof_double_of_numeral)

lemma valof_decay_3:
  "valof (double_mul (double_of_real 3) USAGE_DECREASE_FACTOR) = 6687845446645186 / 2 ^ 51"
  unfolding valof_double_mul valof_USAGE_DECREASE_FACTOR
  by (subst double_round_eval [where s = 51])
    (simp_all add: round_half_even_def valof_double_of_numeral)

lemma valof_decay_4:
  "valof (double_mul (double_of_real 4) USAGE_DECREASE_FACTOR) = 8917127262193582 / 2 ^ 51"
  unfolding valof_double_mul valof_USAGE_DECREASE_FACTOR
  by (subst double_round_eval [where s = 51])
    (simp_all add: round_half_even_def valof_double_of_numeral)

lemma valof_decay_5:
  "valof (double_mul (double_of_real 5) USAGE_DECREASE_FACTOR) = 5573204538870989 / 2 ^ 50"
  unfolding valof_double_mul valof_USAGE_DECREASE_FACTOR
  by (subst double_round_eval [where s = 50])
    (simp_all add: round_half_even_def valof_double_of_numeral)

lemma valof_decay_6:
  "valof (double_mul (double_of_real 6) USAGE_DECREASE_FACTOR) = 6687845446645186 / 2 ^ 50"
  unfolding valof_double_mul valof_USAGE_DECREASE_FACTOR
  by (subst double_round_eval [where s = 50])
    (simp_all add: round_half_even_def valof_double_of_numeral)

lemma valof_decay_7:
  "valof (double_mul (double_of_real 7) USAGE_DECREASE_FACTOR) = 7802486354419384 / 2 ^ 50"
  unfolding valof_double_mul valof_USAGE_DECREASE_FACTOR
  by (subst double_round_eval [where s = 50])
    (simp_all add: round_half_even_def valof_double_of_numeral)

lemma valof_decay_8:
  "valof (double_mul (double_of_real 8) USAGE_DECREASE_FACTOR) = 8917127262193582 / 2 ^ 50"
  unfolding valof_double_mul valof_USAGE_DECREASE_FACTOR
  by (subst double_round_eval [where s = 50])
    (simp_all add: round_half_even_def valof_double_of_numeral)

lemma valof_decay_9:
  "valof (double_mul (double_of_real 9) USAGE_DECREASE_FACTOR) = 5015884084983890 / 2 ^ 49"
  unfolding valof_double_mul valof_USAGE_DECREASE_FACTOR
  by (subst double_round_eval [where s = 49])
    (simp_all add: round_half_even_def valof_double_of_numeral)

lemma valof_decay_10:
  "valof (double_mul (double_of_real 10) USAGE_DECREASE_FACTOR) = 5573204538870989 / 2 ^ 49"
  unfolding valof_double_mul valof_USAGE_DECREASE_FACTOR
  by (subst double_round_eval [where s = 49])
    (simp_all add: round_half_even_def valof_double_of_numeral)

lemma valof_decay_11:
  "valof (double_mul (double_of_real 11) USAGE_DECREASE_FACTOR) = 6130524992758088 / 2 ^ 49"
  unfolding valof_double_mul valof_USAGE_DECREASE_FACTOR
  by (subst double_round_eval [where s = 49])
    (simp_all add: round_half_even_def valof_double_of_numeral)

lemma valof_decay_12:
  "valof (double_mul (double_of_real 12) USAGE_DECREASE_FACTOR) = 6687845446645186 / 2 ^ 49"
  unfolding valof_double_mul valof_USAGE_DECREASE_FACTOR
  by (subst double_round_eval [where s = 49])
    (simp_all add: round_half_even_def valof_double_of_numeral)

lemmas valof_decay_examples = valof_decay_1 valof_decay_2 valof_decay_3 valof_decay_4 valof_decay_5 valof_decay_6 valof_decay_7 valof_decay_8 valof_decay_9 valof_decay_10 valof_decay_11 valof_decay_12

lemma valof_tie_high_usage: "valof tie_high_usage = 7036874417766444 / 2 ^ 47"
  unfolding tie_high_usage_def valof_double_of_real
  by (subst double_round_eval [where s = 47]) (simp_all add: round_half_even_def)

lemma valof_tie_low_usage: "valof tie_low_usage = 7036874417766443 / 2 ^ 47"
  unfolding tie_low_usage_def valof_double_of_real
  by (subst double_round_eval [where s = 47]) (simp_all add: round_half_even_def)

text \<open>The two neighbours have the same product with the decay factor.\<close>

lemma valof_decay_tie_high:
  "valof (double_mul tie_high_usage USAGE_DECREASE_FACTOR) = 6966505673588779 / 2 ^ 47"
  unfolding valof_double_mul valof_USAGE_DECREASE_FACTOR valof_tie_high_usage
  by (subst double_round_eval [where s = 47]) (simp_all add: round_half_even_def)

lemma valof_decay_tie_low:
  "valof (double_mul tie_low_usage USAGE_DECREASE_FACTOR) = 6966505673588779 / 2 ^ 47"
  unfolding valof_double_mul valof_USAGE_DECREASE_FACTOR valof_tie_low_usage
  by (subst double_round_eval [where s = 47]) (simp_all add: round_half_even_def)

section \<open>Eviction\<close>

subsection \<open>The sort\<close>

lemma entry_cmp_le: "entry_cmp a b \<le> 0 \<longleftrightarrow> valof (usage a) \<le> valof (usage b)"
  by (simp add: entry_cmp_def)

lemma qsort_insert_entry_cmp:
  "qsort_insert entry_cmp x ys = insort_key (\<lambda>e. valof (usage e)) x ys"
  by (induction ys) (simp_all add: entry_cmp_le)

text \<open>With \<^verbatim>\<open>entry_cmp\<close> the sort is the stable sort by increasing usage.\<close>

lemma qsort_entries_sort_key: "qsort_entries es = sort_key (\<lambda>e. valof (usage e)) es"
proof -
  have "qsort_insert entry_cmp = insort_key (\<lambda>e. valof (usage e))"
    by (intro ext) (rule qsort_insert_entry_cmp)
  then show ?thesis
    by (simp add: qsort_entries_def qsort_def sort_key_def)
qed

lemma qsort_entries_sorted: "sorted_wrt (\<lambda>a b. entry_cmp a b \<le> 0) (qsort_entries es)"
proof -
  have "sorted (map (\<lambda>e. valof (usage e)) (qsort_entries es))"
    by (simp add: qsort_entries_sort_key)
  then show ?thesis
    by (simp add: entry_cmp_le sorted_wrt_map)
qed

lemma qsort_entries_mset: "mset (qsort_entries es) = mset es"
  by (simp add: qsort_entries_sort_key)

subsection \<open>Removal of the victims is a filter\<close>

lemma fold_hash_remove:
  "fold (\<lambda>v t. hash_remove (key v) t) vs tbl = filter (\<lambda>e. key e \<notin> key ` set vs) tbl"
  by (induction vs arbitrary: tbl) (auto simp: hash_remove_def intro: filter_cong)

lemma pgws_entry_dealloc_filter:
  "pgws_entry_dealloc tbl =
     filter (\<lambda>e. key e \<notin> key ` set (take (nat (nvictims_of (int (length tbl))))
                                        (qsort_entries (map decay tbl))))
       (map decay tbl)"
  by (simp add: pgws_entry_dealloc_def Let_def fold_hash_remove qsort_entries_sort_key)

lemma key_decay: "key (decay e) = key e"
  by (simp add: decay_def)

lemma pgws_entry_dealloc_keys: "key ` set (pgws_entry_dealloc tbl) \<subseteq> key ` set tbl"
  by (auto simp: pgws_entry_dealloc_filter key_decay)

subsection \<open>The victim count\<close>

lemma nvictims_of_le: "0 \<le> i \<Longrightarrow> nvictims_of i \<le> i"
  by (simp add: nvictims_of_def)

lemma nvictims_of_pos: "1 \<le> i \<Longrightarrow> 1 \<le> nvictims_of i"
  by (simp add: nvictims_of_def USAGE_DEALLOC_MIN_NUM_def)

lemma nvictims_of_small: "0 \<le> i \<Longrightarrow> i \<le> 10 \<Longrightarrow> nvictims_of i = i"
  by (simp add: nvictims_of_def USAGE_DEALLOC_MIN_NUM_def)

lemma length_filter_victims:
  assumes "mset vs \<subseteq># mset xs"
  shows "length vs \<le> length (filter (\<lambda>e. f e \<in> f ` set vs) xs)"
proof -
  have "filter (\<lambda>e. f e \<in> f ` set vs) vs = vs"
    by simp
  then have "mset vs = filter_mset (\<lambda>e. f e \<in> f ` set vs) (mset vs)"
    by (metis mset_filter)
  also have "\<dots> \<subseteq># filter_mset (\<lambda>e. f e \<in> f ` set vs) (mset xs)"
    using assms by (rule multiset_filter_mono)
  finally have "size (mset vs) \<le> size (filter_mset (\<lambda>e. f e \<in> f ` set vs) (mset xs))"
    by (rule size_mset_mono)
  then show ?thesis
    by (simp flip: mset_filter)
qed

lemma mset_take_subseteq: "mset (take n xs) \<subseteq># mset xs"
  by (metis append_take_drop_id mset_append mset_subset_eq_add_left)

text \<open>An eviction pass removes at least the victim count.\<close>

lemma length_pgws_entry_dealloc:
  "length (pgws_entry_dealloc tbl) + nat (nvictims_of (int (length tbl))) \<le> length tbl"
proof -
  let ?n = "nat (nvictims_of (int (length tbl)))"
  let ?d = "map decay tbl"
  let ?vs = "take ?n (qsort_entries ?d)"
  have n: "?n \<le> length tbl"
    using nvictims_of_le [of "int (length tbl)"] by simp
  have "mset ?vs \<subseteq># mset (qsort_entries ?d)"
    by (rule mset_take_subseteq)
  then have "mset ?vs \<subseteq># mset ?d"
    by (simp add: qsort_entries_sort_key)
  then have "length ?vs \<le> length (filter (\<lambda>e. key e \<in> key ` set ?vs) ?d)"
    by (rule length_filter_victims)
  moreover have "length ?vs = ?n"
    using n by (simp add: qsort_entries_sort_key)
  moreover have "length (filter (\<lambda>e. key e \<in> key ` set ?vs) ?d)
      + length (filter (\<lambda>e. key e \<notin> key ` set ?vs) ?d) = length ?d"
    by (rule sum_length_filter_compl)
  moreover have "length ?d = length tbl"
    by simp
  ultimately have "length (filter (\<lambda>e. key e \<notin> key ` set ?vs) ?d) + ?n \<le> length tbl"
    by linarith
  then show ?thesis
    by (simp only: pgws_entry_dealloc_filter)
qed

lemma pgws_entry_dealloc_shrinks:
  "tbl \<noteq> [] \<Longrightarrow> length (pgws_entry_dealloc tbl) < length tbl"
  using length_pgws_entry_dealloc [of tbl] nvictims_of_pos [of "int (length tbl)"]
  by (cases tbl) auto

lemma pgws_entry_dealloc_Nil: "pgws_entry_dealloc [] = []"
  by (simp add: pgws_entry_dealloc_def qsort_entries_sort_key)

lemma pgws_entry_dealloc_small:
  assumes "length tbl \<le> 10"
  shows "pgws_entry_dealloc tbl = []"
proof -
  have "length (pgws_entry_dealloc tbl) + length tbl \<le> length tbl"
    using length_pgws_entry_dealloc [of tbl] nvictims_of_small [of "int (length tbl)"] assms
    by simp
  then show ?thesis by simp
qed

section \<open>The make-space loop\<close>

lemma make_space_returns:
  assumes "1 \<le> maxe"
  shows "\<exists>tbl'. make_space maxe tbl = Some tbl' \<and> int (length tbl') < maxe"
proof (induction tbl rule: length_induct)
  case (1 tbl)
  show ?case
  proof (cases "maxe \<le> int (length tbl)")
    case True
    with assms have "tbl \<noteq> []" by auto
    then have "length (pgws_entry_dealloc tbl) < length tbl"
      by (rule pgws_entry_dealloc_shrinks)
    with 1 obtain tbl' where "make_space maxe (pgws_entry_dealloc tbl) = Some tbl'"
      and "int (length tbl') < maxe" by blast
    with True show ?thesis
      by (subst make_space.simps) simp
  next
    case False
    then show ?thesis
      by (subst make_space.simps) simp
  qed
qed

text \<open>Whatever the loop returns is below the bound, and it returns only for a positive bound.\<close>

lemma make_space_Some_maxe:
  "make_space maxe tbl = Some tbl' \<Longrightarrow> 1 \<le> maxe \<and> int (length tbl') < maxe"
proof (induction rule: make_space.raw_induct [rotated 1, consumes 1])
  case (1 f maxe tbl y)
  then show ?case
    by (auto split: if_splits)
qed

lemma make_space_diverges: "maxe \<le> 0 \<Longrightarrow> make_space maxe tbl = None"
  using make_space_Some_maxe [of maxe tbl] by (cases "make_space maxe tbl") auto

lemma make_space_keys:
  "make_space maxe tbl = Some tbl' \<Longrightarrow> key ` set tbl' \<subseteq> key ` set tbl"
proof (induction rule: make_space.raw_induct [rotated 1, consumes 1])
  case (1 f maxe tbl y)
  show ?case
  proof (cases "maxe \<le> int (length tbl)")
    case True
    with 1 have "key ` set y \<subseteq> key ` set (pgws_entry_dealloc tbl)"
      by simp
    then show ?thesis
      using pgws_entry_dealloc_keys [of tbl] by (rule subset_trans)
  next
    case False
    with 1 show ?thesis by simp
  qed
qed

text \<open>
  C9: an eviction pass on a non-empty table removes at least one entry, because the
  victim count is at least 1 for a size of at least 1; so for a bound of at least 1
  the make-space loop returns. On the empty table an eviction pass removes nothing,
  and for the bound 0 the loop does not return.
\<close>

theorem make_space_termination:
  "(tbl \<noteq> [] \<longrightarrow> length (pgws_entry_dealloc tbl) < length tbl)
   \<and> (1 \<le> i \<longrightarrow> 1 \<le> nvictims_of i)
   \<and> (1 \<le> maxe \<longrightarrow> (\<exists>tbl'. make_space maxe tbl = Some tbl'))
   \<and> pgws_entry_dealloc [] = []
   \<and> make_space 0 tbl = None"
  using pgws_entry_dealloc_shrinks [of tbl] nvictims_of_pos [of i]
    make_space_returns [of maxe tbl] pgws_entry_dealloc_Nil make_space_diverges [of 0 tbl]
  by auto

theorem make_space_termination_witness:
  "[example_entry 7 3 2] \<noteq> []
   \<and> length (pgws_entry_dealloc [example_entry 7 3 2]) < length [example_entry 7 3 2]
   \<and> (1::int) \<le> 1 \<and> 1 \<le> nvictims_of 1
   \<and> (\<exists>tbl'. make_space 1 [example_entry 7 3 2] = Some tbl')
   \<and> make_space 0 [example_entry 7 3 2] = None"
  using make_space_termination [of "[example_entry 7 3 2]" 1 1]
  by simp

text \<open>
  C10: on a table of at most 10 entries (the minimum deallocation count) the victim
  count is the table size and one eviction pass empties the table. So for a bound
  between 1 and 10, the insertion of a new key into a table at capacity (with at
  most 10 entries) leaves the new entry alone in the table.
\<close>

theorem small_table_eviction_empties:
  "(length tbl \<le> 10 \<longrightarrow>
      nvictims_of (int (length tbl)) = int (length tbl) \<and> pgws_entry_dealloc tbl = [])
   \<and> (1 \<le> pgwsMaxProfileEntries cfg \<and> pgwsMaxProfileEntries cfg \<le> int (length tbl)
        \<and> length tbl \<le> 10 \<and> hash_find (profile_key cfg pid wei qid) tbl = None \<longrightarrow>
      profile_write cfg pid wei qid tbl =
        Some [\<lparr>key = profile_key cfg pid wei qid, counter = 1, usage = USAGE_INIT\<rparr>])"
proof (intro conjI impI)
  assume "length tbl \<le> 10"
  then show "nvictims_of (int (length tbl)) = int (length tbl)"
    by (simp add: nvictims_of_small)
next
  assume "length tbl \<le> 10"
  then show "pgws_entry_dealloc tbl = []"
    by (rule pgws_entry_dealloc_small)
next
  let ?k = "profile_key cfg pid wei qid"
  assume a: "1 \<le> pgwsMaxProfileEntries cfg \<and> pgwsMaxProfileEntries cfg \<le> int (length tbl)
        \<and> length tbl \<le> 10 \<and> hash_find ?k tbl = None"
  then have "pgws_entry_dealloc tbl = []"
    by (simp add: pgws_entry_dealloc_small)
  with a have "make_space (pgwsMaxProfileEntries cfg) tbl = make_space (pgwsMaxProfileEntries cfg) []"
    by (subst make_space.simps) simp
  also from a have "\<dots> = Some []"
    by (subst make_space.simps) simp
  finally have "make_space (pgwsMaxProfileEntries cfg) tbl = Some []" .
  with a show "profile_write cfg pid wei qid tbl = Some [\<lparr>key = ?k, counter = 1, usage = USAGE_INIT\<rparr>]"
    by (simp add: profile_write_def Let_def hash_enter_def entry_update_def hash_find_def)
qed

theorem small_table_eviction_empties_witness:
  "length [example_entry 1 5 5, example_entry 2 9 9] \<le> 10
   \<and> nvictims_of (int (length [example_entry 1 5 5, example_entry 2 9 9])) = 2
   \<and> pgws_entry_dealloc [example_entry 1 5 5, example_entry 2 9 9] = []
   \<and> 1 \<le> pgwsMaxProfileEntries (example_cfg 4 2)
   \<and> pgwsMaxProfileEntries (example_cfg 4 2) \<le> int (length [example_entry 1 5 5, example_entry 2 9 9])
   \<and> hash_find (profile_key (example_cfg 4 2) 3 1 0) [example_entry 1 5 5, example_entry 2 9 9] = None
   \<and> profile_write (example_cfg 4 2) 3 1 0 [example_entry 1 5 5, example_entry 2 9 9] =
       Some [\<lparr>key = example_key 3, counter = 1, usage = USAGE_INIT\<rparr>]"
  using small_table_eviction_empties
    [of "[example_entry 1 5 5, example_entry 2 9 9]" "example_cfg 4 2" 3 1 0]
  by (simp add: example_cfg_def example_entry_def example_key_def profile_key_def hash_find_def
      USAGE_INIT_def)

section \<open>The profile table stays within its bound\<close>

lemma entry_update_length: "length (entry_update k f tbl) = length tbl"
  by (simp add: entry_update_def)

lemma entry_update_absent: "k \<notin> key ` set tbl \<Longrightarrow> entry_update k f tbl = tbl"
  by (induction tbl) (auto simp: entry_update_def)

lemma hash_find_None_iff: "hash_find k tbl = None \<longleftrightarrow> k \<notin> key ` set tbl"
  by (auto simp: hash_find_def find_None_iff)

lemma hash_find_Some_key: "hash_find k tbl = Some e \<Longrightarrow> key e = k \<and> e \<in> set tbl"
  by (auto simp: hash_find_def find_Some_iff)

text \<open>
  The insertion of a new key: the loop runs first, the new entry is appended to what
  the loop has left, and nothing is removed afterwards.
\<close>

lemma profile_write_new:
  assumes "hash_find (profile_key cfg pid wei qid) tbl = None"
    and "profile_write cfg pid wei qid tbl = Some tbl''"
  shows "\<exists>tbl'. make_space (pgwsMaxProfileEntries cfg) tbl = Some tbl'
           \<and> int (length tbl') < pgwsMaxProfileEntries cfg
           \<and> tbl'' = tbl' @ [\<lparr>key = profile_key cfg pid wei qid, counter = 1, usage = USAGE_INIT\<rparr>]"
proof -
  let ?k = "profile_key cfg pid wei qid"
  from assms obtain tbl' where ms: "make_space (pgwsMaxProfileEntries cfg) tbl = Some tbl'"
    and t'': "tbl'' = entry_update ?k (\<lambda>e. e\<lparr>counter := 1, usage := USAGE_INIT\<rparr>) (hash_enter ?k tbl')"
    by (auto simp: profile_write_def Let_def split: option.splits)
  from ms have len: "int (length tbl') < pgwsMaxProfileEntries cfg"
    by (simp add: make_space_Some_maxe)
  from ms assms(1) have absent: "?k \<notin> key ` set tbl'"
    using make_space_keys [OF ms] by (auto simp: hash_find_None_iff)
  then have "hash_find ?k tbl' = None"
    by (simp add: hash_find_None_iff)
  then have "hash_enter ?k tbl' = tbl' @ [\<lparr>key = ?k, counter = 0, usage = double_of_real 0\<rparr>]"
    by (simp add: hash_enter_def)
  moreover have "entry_update ?k f tbl' = tbl'" for f
    using absent by (rule entry_update_absent)
  ultimately have "tbl'' = tbl' @ [\<lparr>key = ?k, counter = 1, usage = USAGE_INIT\<rparr>]"
    unfolding t'' by (simp add: entry_update_def)
  with ms len show ?thesis by blast
qed

lemma profile_write_length:
  assumes "profile_write cfg pid wei qid tbl = Some tbl''"
    and "int (length tbl) \<le> pgwsMaxProfileEntries cfg"
  shows "int (length tbl'') \<le> pgwsMaxProfileEntries cfg"
proof (cases "hash_find (profile_key cfg pid wei qid) tbl")
  case None
  from profile_write_new [OF None assms(1)] show ?thesis by auto
next
  case (Some e)
  with assms show ?thesis
    by (auto simp: profile_write_def Let_def entry_update_length)
qed

lemma probe_slot_length:
  assumes "probe_slot wh True cfg p st = Some (Inr st')"
    and "int (length (pgws_profile_hash st)) \<le> pgwsMaxProfileEntries cfg"
  shows "int (length (pgws_profile_hash st')) \<le> pgwsMaxProfileEntries cfg"
  using assms
  by (auto simp: probe_slot_def Let_def split: if_splits sum.splits option.splits
      dest: profile_write_length)

lemma probe_waits_length:
  assumes "probe_waits wh True cfg procs st = Some (Inr st')"
    and "int (length (pgws_profile_hash st)) \<le> pgwsMaxProfileEntries cfg"
  shows "int (length (pgws_profile_hash st')) \<le> pgwsMaxProfileEntries cfg"
  using assms
proof (induction procs arbitrary: st)
  case Nil
  then show ?case by simp
next
  case (Cons p procs)
  then show ?case
    by (auto split: option.splits sum.splits dest: probe_slot_length)
qed

text \<open>
  C1: when the insertion of a new key completes, the table has at most
  \<open>pgwsMaxProfileEntries\<close> entries: the make-space loop has run before the
  insertion and left fewer entries than the bound, the new entry is appended to
  them, and no eviction follows. Hence a pass of the probe with \<open>write_profile\<close>
  that starts within the bound ends within the bound.
\<close>

theorem profile_size_bounded:
  "(hash_find (profile_key cfg pid wei qid) tbl = None
      \<and> profile_write cfg pid wei qid tbl = Some tbl'' \<longrightarrow>
      int (length tbl'') \<le> pgwsMaxProfileEntries cfg
      \<and> (\<exists>tbl'. make_space (pgwsMaxProfileEntries cfg) tbl = Some tbl'
            \<and> int (length tbl') < pgwsMaxProfileEntries cfg
            \<and> tbl'' = tbl' @ [\<lparr>key = profile_key cfg pid wei qid, counter = 1,
                               usage = USAGE_INIT\<rparr>]))
   \<and> (probe_waits wh True cfg procs st = Some (Inr st')
        \<and> int (length (pgws_profile_hash st)) \<le> pgwsMaxProfileEntries cfg \<longrightarrow>
      int (length (pgws_profile_hash st')) \<le> pgwsMaxProfileEntries cfg)"
proof (intro conjI impI)
  assume a: "hash_find (profile_key cfg pid wei qid) tbl = None
      \<and> profile_write cfg pid wei qid tbl = Some tbl''"
  then obtain tbl' where t: "make_space (pgwsMaxProfileEntries cfg) tbl = Some tbl'"
    "int (length tbl') < pgwsMaxProfileEntries cfg"
    "tbl'' = tbl' @ [\<lparr>key = profile_key cfg pid wei qid, counter = 1, usage = USAGE_INIT\<rparr>]"
    using profile_write_new [of cfg pid wei qid tbl tbl''] by blast
  then show "int (length tbl'') \<le> pgwsMaxProfileEntries cfg"
    by simp
  from t show "\<exists>tbl'. make_space (pgwsMaxProfileEntries cfg) tbl = Some tbl'
            \<and> int (length tbl') < pgwsMaxProfileEntries cfg
            \<and> tbl'' = tbl' @ [\<lparr>key = profile_key cfg pid wei qid, counter = 1,
                               usage = USAGE_INIT\<rparr>]"
    by blast
next
  assume "probe_waits wh True cfg procs st = Some (Inr st')
        \<and> int (length (pgws_profile_hash st)) \<le> pgwsMaxProfileEntries cfg"
  then show "int (length (pgws_profile_hash st')) \<le> pgwsMaxProfileEntries cfg"
    using probe_waits_length by blast
qed

theorem profile_size_bounded_witness:
  "hash_find (profile_key (example_cfg 4 2) 3 1 0) [example_entry 1 5 5, example_entry 2 9 9] = None
   \<and> profile_write (example_cfg 4 2) 3 1 0 [example_entry 1 5 5, example_entry 2 9 9]
       = Some [example_entry 3 1 1]
   \<and> int (length [example_entry 3 1 1]) \<le> pgwsMaxProfileEntries (example_cfg 4 2)
   \<and> (\<exists>tbl'. make_space (pgwsMaxProfileEntries (example_cfg 4 2))
                 [example_entry 1 5 5, example_entry 2 9 9] = Some tbl'
          \<and> int (length tbl') < pgwsMaxProfileEntries (example_cfg 4 2)
          \<and> [example_entry 3 1 1] =
              tbl' @ [\<lparr>key = profile_key (example_cfg 4 2) 3 1 0, counter = 1, usage = USAGE_INIT\<rparr>])
   \<and> probe_waits False True (example_cfg 4 2)
        [example_slot 3 1, example_slot 0 1, example_slot 4 1, example_slot 3 1]
        (example_shared [] 0 [example_entry 1 5 5, example_entry 2 9 9])
       = Some (Inr (example_shared [] 0 [example_entry 3 2 2, example_entry 4 1 1]))
   \<and> int (length (pgws_profile_hash (example_shared [] 0 [example_entry 1 5 5, example_entry 2 9 9])))
        \<le> pgwsMaxProfileEntries (example_cfg 4 2)
   \<and> int (length (pgws_profile_hash (example_shared [] 0 [example_entry 3 2 2, example_entry 4 1 1])))
        \<le> pgwsMaxProfileEntries (example_cfg 4 2)"
proof -
  have absent: "hash_find (profile_key (example_cfg 4 2) 3 1 0)
      [example_entry 1 5 5, example_entry 2 9 9] = None"
    by (simp add: hash_find_def profile_key_def example_cfg_def example_entry_def example_key_def)
  have dealloc: "pgws_entry_dealloc [example_entry 1 5 5, example_entry 2 9 9] = []"
    by (simp add: pgws_entry_dealloc_small)
  have ms: "make_space 2 [example_entry 1 5 5, example_entry 2 9 9] = Some []"
    by (simp add: make_space.simps dealloc)
  have wr: "profile_write (example_cfg 4 2) 3 1 0 [example_entry 1 5 5, example_entry 2 9 9]
       = Some [example_entry 3 1 1]"
    using absent ms
    by (simp add: profile_write_def Let_def hash_enter_def entry_update_def hash_find_def
        profile_key_def example_cfg_def example_entry_def example_key_def USAGE_INIT_def)
  have pass: "probe_waits False True (example_cfg 4 2)
        [example_slot 3 1, example_slot 0 1, example_slot 4 1, example_slot 3 1]
        (example_shared [] 0 [example_entry 1 5 5, example_entry 2 9 9])
       = Some (Inr (example_shared [] 0 [example_entry 3 2 2, example_entry 4 1 1]))"
    using ms
    by (simp add: probe_slot_def profile_write_def Let_def hash_enter_def entry_update_def
        hash_find_def profile_key_def make_space.simps
        example_cfg_def example_entry_def example_key_def example_slot_def example_shared_def
        USAGE_INIT_def USAGE_INCREASE_def double_add_numerals)
  show ?thesis
    using profile_size_bounded
      [of "example_cfg 4 2" 3 1 0 "[example_entry 1 5 5, example_entry 2 9 9]"
        "[example_entry 3 1 1]" False
        "[example_slot 3 1, example_slot 0 1, example_slot 4 1, example_slot 3 1]"
        "example_shared [] 0 [example_entry 1 5 5, example_entry 2 9 9]"
        "example_shared [] 0 [example_entry 3 2 2, example_entry 4 1 1]"]
      absent wr pass
    by (simp add: example_cfg_def example_shared_def)
qed

section \<open>Invariants of the profile table\<close>

subsection \<open>One entry per key\<close>

lemma distinct_keys_dealloc: "distinct_keys tbl \<Longrightarrow> distinct_keys (pgws_entry_dealloc tbl)"
proof -
  assume "distinct_keys tbl"
  then have "distinct (map key (map decay tbl))"
    by (simp add: distinct_keys_def key_decay comp_def)
  then show ?thesis
    unfolding distinct_keys_def pgws_entry_dealloc_filter by (rule distinct_map_filter)
qed

lemma distinct_keys_make_space:
  "make_space maxe tbl = Some tbl' \<Longrightarrow> distinct_keys tbl \<Longrightarrow> distinct_keys tbl'"
proof (induction rule: make_space.raw_induct [rotated 1, consumes 1])
  case (1 f maxe tbl y)
  then show ?case
    by (auto split: if_splits dest: distinct_keys_dealloc)
qed

lemma distinct_keys_profile_write:
  assumes "profile_write cfg pid wei qid tbl = Some tbl''" and "distinct_keys tbl"
  shows "distinct_keys tbl''"
proof (cases "hash_find (profile_key cfg pid wei qid) tbl")
  case None
  from profile_write_new [OF None assms(1)] obtain tbl'
    where ms: "make_space (pgwsMaxProfileEntries cfg) tbl = Some tbl'"
      and t: "tbl'' = tbl' @ [\<lparr>key = profile_key cfg pid wei qid, counter = 1, usage = USAGE_INIT\<rparr>]"
    by blast
  from make_space_keys [OF ms] None have "profile_key cfg pid wei qid \<notin> key ` set tbl'"
    by (auto simp: hash_find_None_iff)
  with distinct_keys_make_space [OF ms assms(2)] show ?thesis
    by (simp add: t distinct_keys_def)
next
  case (Some e)
  with assms(1) have "map key tbl'' = map key tbl"
    by (auto simp: profile_write_def Let_def entry_update_def)
  with assms(2) show ?thesis
    by (simp add: distinct_keys_def)
qed

lemma distinct_keys_probe_waits:
  assumes "probe_waits wh wp cfg procs st = Some (Inr st')"
    and "distinct_keys (pgws_profile_hash st)"
  shows "distinct_keys (pgws_profile_hash st')"
  using assms
proof (induction procs arbitrary: st)
  case Nil
  then show ?case by simp
next
  case (Cons p procs)
  from Cons.prems(1) obtain st1 where s1: "probe_slot wh wp cfg p st = Some (Inr st1)"
    and rest: "probe_waits wh wp cfg procs st1 = Some (Inr st')"
    by (auto split: option.splits sum.splits)
  from s1 Cons.prems(2) have "distinct_keys (pgws_profile_hash st1)"
    by (auto simp: probe_slot_def Let_def split: if_splits sum.splits option.splits
        dest: distinct_keys_profile_write)
  with Cons.IH [OF rest] show ?case .
qed

section \<open>Skipped slots\<close>

lemma probe_slot_skip:
  "proc_pid p = 0 \<or> proc_wait_event_info p = 0 \<Longrightarrow> probe_slot wh wp cfg p st = Some (Inr st)"
  by (auto simp: probe_slot_def Let_def)

lemma probe_waits_append:
  "probe_waits wh wp cfg (ps @ qs) st =
     (case probe_waits wh wp cfg ps st of
        None \<Rightarrow> None
      | Some (Inl e) \<Rightarrow> Some (Inl e)
      | Some (Inr st') \<Rightarrow> probe_waits wh wp cfg qs st')"
  by (induction ps arbitrary: st) (auto split: option.splits sum.splits)

text \<open>
  C7: a slot whose process identifier is 0 or whose wait-event code is 0 leaves the
  history ring, its cursor and the profile table as they are, whatever the other
  fields, the flags and the configuration are; a pass gives the same result with
  and without such a slot.
\<close>

theorem skipped_slot_no_effect:
  assumes "proc_pid p = 0 \<or> proc_wait_event_info p = 0"
  shows "probe_slot wh wp cfg p st = Some (Inr st)
    \<and> probe_waits wh wp cfg (ps @ p # qs) st = probe_waits wh wp cfg (ps @ qs) st"
proof
  show slot: "probe_slot wh wp cfg p st = Some (Inr st)"
    using assms by (rule probe_slot_skip)
  have step: "probe_waits wh wp cfg (p # qs) st' = probe_waits wh wp cfg qs st'" for st'
    using assms by (simp add: probe_slot_skip)
  show "probe_waits wh wp cfg (ps @ p # qs) st = probe_waits wh wp cfg (ps @ qs) st"
    by (simp only: probe_waits_append [of wh wp cfg ps] step)
qed

theorem skipped_slot_no_effect_witness:
  "(proc_pid (example_slot 5 0) = 0 \<or> proc_wait_event_info (example_slot 5 0) = 0)
   \<and> probe_slot True True (example_cfg 4 2) (example_slot 5 0)
        (example_shared [example_item 8] 3 [example_entry 1 5 5]) =
       Some (Inr (example_shared [example_item 8] 3 [example_entry 1 5 5]))
   \<and> probe_waits True True (example_cfg 4 2) ([] @ example_slot 5 0 # [])
        (example_shared [example_item 8] 3 [example_entry 1 5 5]) =
      probe_waits True True (example_cfg 4 2) ([] @ [])
        (example_shared [example_item 8] 3 [example_entry 1 5 5])"
  using skipped_slot_no_effect [of "example_slot 5 0" True True "example_cfg 4 2"
      "example_shared [example_item 8] 3 [example_entry 1 5 5]" "[]" "[]"]
  by (simp add: example_slot_def)

section \<open>The history ring\<close>

lemma mod_add_neq:
  assumes "0 < k" and "k < (C::nat)"
  shows "(n + k) mod C \<noteq> n mod C"
proof
  assume "(n + k) mod C = n mod C"
  then have "C dvd (n + k) - n"
    by (simp add: mod_eq_dvd_iff_nat)
  then have "C dvd k" by simp
  with assms show False
    by (auto dest: dvd_imp_le)
qed

lemma history_write_Inr:
  assumes "history_write cfg item ring = Inr ring'"
  shows "0 < pgwsHistoryBufferSize cfg"
    and "index ring mod pgwsHistoryBufferSize cfg < length (items ring)"
    and "index ring' = Suc (index ring)"
    and "items ring' = (items ring)[index ring mod pgwsHistoryBufferSize cfg := item]"
  using assms by (auto simp: history_write_def Let_def split: if_splits)

lemma history_write_returns:
  assumes "0 < pgwsHistoryBufferSize cfg" and "length (items ring) = pgwsHistoryBufferSize cfg"
  shows "\<exists>ring'. history_write cfg item ring = Inr ring'
           \<and> length (items ring') = pgwsHistoryBufferSize cfg"
  using assms by (simp add: history_write_def Let_def not_le)

lemma history_writes_returns:
  assumes "0 < pgwsHistoryBufferSize cfg" and "length (items ring) = pgwsHistoryBufferSize cfg"
  shows "\<exists>ring'. history_writes cfg its ring = Inr ring'"
  using assms(2)
proof (induction its arbitrary: ring)
  case Nil
  then show ?case by simp
next
  case (Cons item its)
  from history_write_returns [OF assms(1) Cons.prems, of item]
  obtain ring1 where "history_write cfg item ring = Inr ring1"
    and "length (items ring1) = pgwsHistoryBufferSize cfg" by blast
  with Cons.IH [of ring1] show ?case by simp
qed

text \<open>The ring of a pass is the ring after the writes of its items.\<close>

lemma probe_slot_ring:
  assumes "probe_slot True wp cfg p st = Some (Inr st')"
  shows "history_writes cfg (written_items cfg [p]) (pgws_history_ring st)
           = Inr (pgws_history_ring st')"
  using assms
  by (auto simp: probe_slot_def Let_def written_items_def slot_skipped_def slot_item_def
      slot_queryid_def split: if_splits sum.splits option.splits)

lemma history_writes_append:
  "history_writes cfg (xs @ ys) ring =
     (case history_writes cfg xs ring of Inl e \<Rightarrow> Inl e | Inr ring' \<Rightarrow> history_writes cfg ys ring')"
  by (induction xs arbitrary: ring) (auto split: sum.splits)

lemma written_items_Cons:
  "written_items cfg (p # procs) = written_items cfg [p] @ written_items cfg procs"
  by (simp add: written_items_def)

lemma probe_waits_ring:
  assumes "probe_waits True wp cfg procs st = Some (Inr st')"
  shows "history_writes cfg (written_items cfg procs) (pgws_history_ring st)
           = Inr (pgws_history_ring st')"
  using assms
proof (induction procs arbitrary: st)
  case Nil
  then show ?case by (simp add: written_items_def)
next
  case (Cons p procs)
  from Cons.prems obtain st1 where s1: "probe_slot True wp cfg p st = Some (Inr st1)"
    and rest: "probe_waits True wp cfg procs st1 = Some (Inr st')"
    by (auto split: option.splits sum.splits)
  from probe_slot_ring [OF s1] Cons.IH [OF rest] show ?case
    by (simp add: written_items_Cons [of cfg p procs] history_writes_append)
qed

text \<open>Slots that no write of the sequence addresses keep their item.\<close>

lemma history_writes_frame:
  assumes "history_writes cfg ws ring = Inr ring'"
    and "length (items ring) = pgwsHistoryBufferSize cfg"
  shows "index ring' = index ring + length ws
    \<and> length (items ring') = pgwsHistoryBufferSize cfg
    \<and> (\<forall>s. (\<forall>j < length ws. (index ring + j) mod pgwsHistoryBufferSize cfg \<noteq> s)
          \<longrightarrow> items ring' ! s = items ring ! s)"
  using assms
proof (induction ws arbitrary: ring)
  case Nil
  then show ?case by simp
next
  case (Cons w ws)
  let ?C = "pgwsHistoryBufferSize cfg"
  from Cons.prems(1) obtain ring1 where w1: "history_write cfg w ring = Inr ring1"
    and rest: "history_writes cfg ws ring1 = Inr ring'"
    by (auto split: sum.splits)
  note h = history_write_Inr [OF w1]
  from h Cons.prems(2) have len1: "length (items ring1) = ?C" by simp
  from Cons.IH [OF rest len1] have ih: "index ring' = index ring1 + length ws"
    "length (items ring') = ?C"
    "\<And>s. (\<forall>j < length ws. (index ring1 + j) mod ?C \<noteq> s) \<Longrightarrow> items ring' ! s = items ring1 ! s"
    by blast+
  have "items ring' ! s = items ring ! s"
    if a: "\<forall>j < length (w # ws). (index ring + j) mod ?C \<noteq> s" for s
  proof -
    have "\<forall>j < length ws. (index ring1 + j) mod ?C \<noteq> s"
    proof (intro allI impI)
      fix j assume "j < length ws"
      then have "Suc j < length (w # ws)" by simp
      with a have "(index ring + Suc j) mod ?C \<noteq> s" by blast
      then show "(index ring1 + j) mod ?C \<noteq> s" by (simp add: h(3))
    qed
    then have "items ring' ! s = items ring1 ! s" by (rule ih(3))
    moreover from a have "index ring mod ?C \<noteq> s" by fastforce
    ultimately show ?thesis by (simp add: h(4))
  qed
  with ih(1,2) h(3) show ?case by simp
qed

text \<open>Each of the last \<open>C\<close> items of the sequence is in the slot of its write index.\<close>

lemma history_writes_slots:
  assumes "history_writes cfg ws ring = Inr ring'"
    and "length (items ring) = pgwsHistoryBufferSize cfg"
    and "j < length ws" and "length ws \<le> j + pgwsHistoryBufferSize cfg"
  shows "items ring' ! ((index ring + j) mod pgwsHistoryBufferSize cfg) = ws ! j"
  using assms
proof (induction ws arbitrary: ring j)
  case Nil
  then show ?case by simp
next
  case (Cons w ws)
  let ?C = "pgwsHistoryBufferSize cfg"
  from Cons.prems(1) obtain ring1 where w1: "history_write cfg w ring = Inr ring1"
    and rest: "history_writes cfg ws ring1 = Inr ring'"
    by (auto split: sum.splits)
  note h = history_write_Inr [OF w1]
  from h Cons.prems(2) have len1: "length (items ring1) = ?C" by simp
  show ?case
  proof (cases j)
    case 0
    with Cons.prems have short: "length ws < ?C" by simp
    have "\<forall>i < length ws. (index ring1 + i) mod ?C \<noteq> index ring mod ?C"
    proof (intro allI impI)
      fix i assume "i < length ws"
      with short have i: "Suc i < ?C" by simp
      show "(index ring1 + i) mod ?C \<noteq> index ring mod ?C"
        using mod_add_neq [of "Suc i" ?C "index ring"] i by (simp add: h(3))
    qed
    with history_writes_frame [OF rest len1]
    have "items ring' ! (index ring mod ?C) = items ring1 ! (index ring mod ?C)"
      by blast
    with h 0 show ?thesis by simp
  next
    case (Suc j')
    with Cons.prems have "j' < length ws" "length ws \<le> j' + ?C" by simp_all
    from Cons.IH [OF rest len1 this] Suc show ?thesis
      by (simp add: h(3))
  qed
qed


lemma map_mod_window:
  assumes "0 < (C::nat)"
  shows "mset (map (\<lambda>j. j mod C) [a..<a + C]) = mset [0..<C]"
proof (induction a)
  case 0
  have "map (\<lambda>j. j mod C) [0..<C] = [0..<C]"
    by (rule map_idI) simp
  then show ?case by simp
next
  case (Suc a)
  have l: "[a..<a + C] = a # [Suc a..<a + C]"
    using assms by (simp add: upt_conv_Cons)
  have r: "[Suc a..<Suc a + C] = [Suc a..<a + C] @ [a + C]"
    using assms by simp
  have "mset (map (\<lambda>j. j mod C) [Suc a..<Suc a + C]) = mset (map (\<lambda>j. j mod C) [a..<a + C])"
    unfolding l r by simp
  with Suc show ?case by simp
qed

lemma mset_nth_window:
  assumes "a + n \<le> length xs"
  shows "mset (map (\<lambda>j. xs ! j) [a..<a + n]) = mset (take n (drop a xs))"
proof -
  have "map (\<lambda>j. xs ! j) [a..<a + n] = take n (drop a xs)"
    using assms by (intro nth_equalityI) (auto simp: nth_map_upt)
  then show ?thesis by simp
qed

lemma probe_waits_history_returns:
  assumes "0 < pgwsHistoryBufferSize cfg"
    and "length (items (pgws_history_ring st)) = pgwsHistoryBufferSize cfg"
  shows "\<exists>st'. probe_waits True False cfg procs st = Some (Inr st')"
  using assms(2)
proof (induction procs arbitrary: st)
  case Nil
  then show ?case by simp
next
  case (Cons p procs)
  show ?case
  proof (cases "slot_skipped p")
    case True
    then have "probe_slot True False cfg p st = Some (Inr st)"
      by (auto simp: probe_slot_def Let_def slot_skipped_def)
    with Cons show ?thesis by simp
  next
    case False
    from history_write_returns [OF assms(1) Cons.prems, of "slot_item cfg p"]
    obtain ring1 where w: "history_write cfg (slot_item cfg p) (pgws_history_ring st) = Inr ring1"
      and l1: "length (items ring1) = pgwsHistoryBufferSize cfg" by blast
    let ?st1 = "\<lparr>pgws_history_ring = ring1, pgws_profile_hash = pgws_profile_hash st\<rparr>"
    from False w have "probe_slot True False cfg p st = Some (Inr ?st1)"
      by (simp add: probe_slot_def Let_def slot_skipped_def slot_item_def slot_queryid_def)
    moreover from Cons.IH [of ?st1] l1
    obtain st'' where "probe_waits True False cfg procs ?st1 = Some (Inr st'')" by auto
    ultimately show ?thesis by simp
  qed
qed

text \<open>A pass without \<open>write_history\<close> leaves the ring as it is.\<close>

lemma probe_slot_no_history:
  "probe_slot False wp cfg p st = Some (Inr st') \<Longrightarrow> pgws_history_ring st' = pgws_history_ring st"
  by (auto simp: probe_slot_def Let_def split: if_splits option.splits)

lemma probe_waits_no_history:
  "probe_waits False wp cfg procs st = Some (Inr st') \<Longrightarrow>
     pgws_history_ring st' = pgws_history_ring st"
proof (induction procs arbitrary: st)
  case Nil
  then show ?case by simp
next
  case (Cons p procs)
  from Cons.prems obtain st1 where s1: "probe_slot False wp cfg p st = Some (Inr st1)"
    and rest: "probe_waits False wp cfg procs st1 = Some (Inr st')"
    by (auto split: option.splits sum.splits)
  from Cons.IH [OF rest] probe_slot_no_history [OF s1] show ?case by simp
qed

text \<open>The ring after a sequence of passes is the ring after the writes of all their items.\<close>

lemma probe_passes_ring:
  assumes "probe_passes cfg passes st = Some (Inr st')"
  shows "history_writes cfg (passes_items cfg passes) (pgws_history_ring st)
           = Inr (pgws_history_ring st')"
  using assms
proof (induction cfg passes st rule: probe_passes.induct)
  case (1 cfg st)
  then show ?case by simp
next
  case (2 cfg wh wp procs passes st)
  from "2.prems" obtain st1 where p1: "probe_waits wh wp cfg procs st = Some (Inr st1)"
    and rest: "probe_passes cfg passes st1 = Some (Inr st')"
    by (auto split: option.splits sum.splits)
  have ih: "history_writes cfg (passes_items cfg passes) (pgws_history_ring st1)
      = Inr (pgws_history_ring st')"
    using "2.IH" p1 rest by simp
  show ?case
  proof (cases wh)
    case True
    with p1 have "history_writes cfg (written_items cfg procs) (pgws_history_ring st)
        = Inr (pgws_history_ring st1)"
      by (simp add: probe_waits_ring)
    with ih True show ?thesis
      by (simp add: history_writes_append)
  next
    case False
    with p1 have "pgws_history_ring st1 = pgws_history_ring st"
      by (simp add: probe_waits_no_history)
    with ih False show ?thesis by simp
  qed
qed

lemma map_add_window: "map (\<lambda>j. n + j) [a..<a + c] = [n + a..<n + a + c]"
  by (induction c) simp_all

text \<open>After at least \<open>C\<close> writes the ring holds the last \<open>C\<close> items written.\<close>

lemma history_writes_last:
  assumes hw: "history_writes cfg ws ring = Inr ring'"
    and len: "length (items ring) = pgwsHistoryBufferSize cfg"
    and full: "pgwsHistoryBufferSize cfg \<le> length ws"
  shows "mset (items ring') = mset (drop (length ws - pgwsHistoryBufferSize cfg) ws)"
proof (cases "pgwsHistoryBufferSize cfg = 0")
  case True
  with history_writes_frame [OF hw len] show ?thesis by simp
next
  case False
  let ?C = "pgwsHistoryBufferSize cfg"
  let ?n = "index ring"
  let ?a = "length ws - ?C"
  from False have pos: "0 < ?C" by simp
  from history_writes_frame [OF hw len] have len': "length (items ring') = ?C" by simp
  have aC: "?a + ?C = length ws" using full by simp
  have slot: "items ring' ! ((?n + j) mod ?C) = ws ! j" if "?a \<le> j" "j < length ws" for j
    using history_writes_slots [OF hw len, of j] that by simp
  have "mset (items ring') = mset (map (\<lambda>s. items ring' ! s) [0..<?C])"
    using len' by (metis map_nth)
  also have "\<dots> = image_mset (\<lambda>s. items ring' ! s)
      (mset (map (\<lambda>i. i mod ?C) [?n + ?a..<?n + ?a + ?C]))"
    by (simp only: map_mod_window [OF pos, of "?n + ?a"] mset_map [of "\<lambda>s. items ring' ! s"])
  also have "\<dots> = mset (map (\<lambda>i. items ring' ! (i mod ?C)) [?n + ?a..<?n + ?a + ?C])"
    by (simp only: mset_map multiset.map_comp comp_def)
  also have "[?n + ?a..<?n + ?a + ?C] = map (\<lambda>j. ?n + j) [?a..<?a + ?C]"
    by (rule map_add_window [symmetric])
  also have "map (\<lambda>i. items ring' ! (i mod ?C)) (map (\<lambda>j. ?n + j) [?a..<?a + ?C])
      = map (\<lambda>j. ws ! j) [?a..<?a + ?C]"
    unfolding map_map comp_def using aC by (intro map_cong refl slot) auto
  also have "mset (map (\<lambda>j. ws ! j) [?a..<?a + ?C]) = mset (take ?C (drop ?a ws))"
    using aC by (intro mset_nth_window) simp
  also have "take ?C (drop ?a ws) = drop ?a ws"
    using aC by simp
  finally show ?thesis .
qed

text \<open>
  C4: a sequence of passes advances the cursor by one for each item written, so the
  cursor never decreases. Each of the last \<open>C\<close> items written is in the slot of its
  write index modulo the capacity \<open>C\<close>, whatever the cursor was at the start, and a
  slot that no write addresses keeps its item. After \<open>N \<ge> C\<close> items the ring holds
  exactly the last \<open>C\<close> items written; from the cursor 0 the cursor is then \<open>N\<close> and
  the item with write index \<open>j\<close> is in slot \<open>j mod C\<close>. A pass that writes only
  history returns for every ring of positive capacity.
\<close>

theorem history_ring_wraps:
  assumes "probe_passes cfg passes st = Some (Inr st')"
    and "length (items (pgws_history_ring st)) = pgwsHistoryBufferSize cfg"
  shows "index (pgws_history_ring st')
           = index (pgws_history_ring st) + length (passes_items cfg passes)
    \<and> index (pgws_history_ring st) \<le> index (pgws_history_ring st')
    \<and> length (items (pgws_history_ring st')) = pgwsHistoryBufferSize cfg
    \<and> (\<forall>j < length (passes_items cfg passes).
          length (passes_items cfg passes) \<le> j + pgwsHistoryBufferSize cfg \<longrightarrow>
          items (pgws_history_ring st')
              ! ((index (pgws_history_ring st) + j) mod pgwsHistoryBufferSize cfg)
            = passes_items cfg passes ! j)
    \<and> (\<forall>s. (\<forall>j < length (passes_items cfg passes).
               (index (pgws_history_ring st) + j) mod pgwsHistoryBufferSize cfg \<noteq> s) \<longrightarrow>
          items (pgws_history_ring st') ! s = items (pgws_history_ring st) ! s)
    \<and> (pgwsHistoryBufferSize cfg \<le> length (passes_items cfg passes) \<longrightarrow>
          mset (items (pgws_history_ring st'))
            = mset (drop (length (passes_items cfg passes) - pgwsHistoryBufferSize cfg)
                      (passes_items cfg passes)))
    \<and> (index (pgws_history_ring st) = 0
          \<and> pgwsHistoryBufferSize cfg \<le> length (passes_items cfg passes) \<longrightarrow>
        index (pgws_history_ring st') = length (passes_items cfg passes)
        \<and> (\<forall>j. length (passes_items cfg passes) - pgwsHistoryBufferSize cfg \<le> j
                \<and> j < length (passes_items cfg passes) \<longrightarrow>
              items (pgws_history_ring st') ! (j mod pgwsHistoryBufferSize cfg)
                = passes_items cfg passes ! j))
    \<and> (0 < pgwsHistoryBufferSize cfg \<longrightarrow>
        (\<exists>st''. probe_waits True False cfg procs st = Some (Inr st'')))"
proof -
  let ?C = "pgwsHistoryBufferSize cfg"
  let ?ws = "passes_items cfg passes"
  let ?r = "pgws_history_ring st"
  let ?r' = "pgws_history_ring st'"
  have hw: "history_writes cfg ?ws ?r = Inr ?r'"
    using assms(1) by (rule probe_passes_ring)
  from history_writes_frame [OF hw assms(2)]
  have idx: "index ?r' = index ?r + length ?ws" and len': "length (items ?r') = ?C"
    and frame: "\<forall>s. (\<forall>j < length ?ws. (index ?r + j) mod ?C \<noteq> s)
          \<longrightarrow> items ?r' ! s = items ?r ! s"
    by simp_all
  have slot: "items ?r' ! ((index ?r + j) mod ?C) = ?ws ! j"
    if "j < length ?ws" "length ?ws \<le> j + ?C" for j
    using hw assms(2) that by (rule history_writes_slots)
  have last: "mset (items ?r') = mset (drop (length ?ws - ?C) ?ws)" if "?C \<le> length ?ws"
    using hw assms(2) that by (rule history_writes_last)
  have zero: "\<forall>j. length ?ws - ?C \<le> j \<and> j < length ?ws \<longrightarrow> items ?r' ! (j mod ?C) = ?ws ! j"
    if "index ?r = 0" "?C \<le> length ?ws"
    using slot that by auto
  have ret: "\<exists>st''. probe_waits True False cfg procs st = Some (Inr st'')" if "0 < ?C"
    using that assms(2) by (rule probe_waits_history_returns)
  from idx len' frame slot last zero ret show ?thesis
    by (intro conjI allI impI) auto
qed

theorem history_ring_wraps_witness:
  "probe_passes (example_cfg 3 5)
      [(True, False, [example_slot 1 1, example_slot 2 0, example_slot 3 1, example_slot 4 1,
                      example_slot 5 1, example_slot 0 1]),
       (False, True, [example_slot 9 1]),
       (True, False, [example_slot 6 1, example_slot 7 1])]
      (example_shared [example_item 8, example_item 8, example_item 9] 0 [])
     = Some (Inr (example_shared [example_item 5, example_item 6, example_item 7] 6
                    [example_entry 9 1 1]))
   \<and> length (items (pgws_history_ring
         (example_shared [example_item 8, example_item 8, example_item 9] 0 [])))
       = pgwsHistoryBufferSize (example_cfg 3 5)
   \<and> passes_items (example_cfg 3 5)
        [(True, False, [example_slot 1 1, example_slot 2 0, example_slot 3 1, example_slot 4 1,
                        example_slot 5 1, example_slot 0 1]),
         (False, True, [example_slot 9 1]),
         (True, False, [example_slot 6 1, example_slot 7 1])]
       = [example_item 1, example_item 3, example_item 4, example_item 5, example_item 6,
          example_item 7]
   \<and> index (pgws_history_ring
         (example_shared [example_item 5, example_item 6, example_item 7] 6 [example_entry 9 1 1]))
       = 6
   \<and> [example_item 5, example_item 6, example_item 7] ! (3 mod 3) = example_item 5
   \<and> [example_item 5, example_item 6, example_item 7] ! (4 mod 3) = example_item 6
   \<and> [example_item 5, example_item 6, example_item 7] ! (5 mod 3) = example_item 7
   \<and> mset [example_item 5, example_item 6, example_item 7]
       = mset (drop (6 - 3) [example_item 1, example_item 3, example_item 4, example_item 5,
                             example_item 6, example_item 7])
   \<and> probe_passes (example_cfg 3 5) [(True, False, [example_slot 6 1, example_slot 7 1])]
        (example_shared [example_item 5, example_item 3, example_item 4] 4 [])
       = Some (Inr (example_shared [example_item 5, example_item 6, example_item 7] 6 []))
   \<and> [example_item 5, example_item 6, example_item 7] ! ((4 + 0) mod 3) = example_item 6
   \<and> [example_item 5, example_item 6, example_item 7] ! ((4 + 1) mod 3) = example_item 7
   \<and> [example_item 5, example_item 6, example_item 7] ! 0
       = [example_item 5, example_item 3, example_item 4] ! 0"
proof -
  let ?cfg = "example_cfg 3 5"
  let ?passes = "[(True, False, [example_slot 1 1, example_slot 2 0, example_slot 3 1,
                      example_slot 4 1, example_slot 5 1, example_slot 0 1]),
       (False, True, [example_slot 9 1]),
       (True, False, [example_slot 6 1, example_slot 7 1])]"
  let ?st = "example_shared [example_item 8, example_item 8, example_item 9] 0 []"
  let ?st' = "example_shared [example_item 5, example_item 6, example_item 7] 6
                    [example_entry 9 1 1]"
  let ?passes2 = "[(True, False, [example_slot 6 1, example_slot 7 1])]"
  let ?st2 = "example_shared [example_item 5, example_item 3, example_item 4] 4 []"
  let ?st2' = "example_shared [example_item 5, example_item 6, example_item 7] 6 []"
  have run: "probe_passes ?cfg ?passes ?st = Some (Inr ?st')"
    by (simp add: probe_slot_def history_write_def profile_write_def Let_def hash_find_def
        hash_enter_def entry_update_def profile_key_def make_space.simps USAGE_INIT_def
        example_cfg_def example_slot_def example_shared_def example_item_def
        example_entry_def example_key_def)
  have ws: "passes_items ?cfg ?passes
       = [example_item 1, example_item 3, example_item 4, example_item 5, example_item 6,
          example_item 7]"
    by (simp add: written_items_def slot_skipped_def slot_item_def slot_queryid_def
        example_cfg_def example_slot_def example_item_def)
  have len: "length (items (pgws_history_ring ?st)) = pgwsHistoryBufferSize ?cfg"
    by (simp add: example_shared_def example_cfg_def)
  have run2: "probe_passes ?cfg ?passes2 ?st2 = Some (Inr ?st2')"
    by (simp add: probe_slot_def history_write_def Let_def
        example_cfg_def example_slot_def example_shared_def example_item_def)
  have ws2: "passes_items ?cfg ?passes2 = [example_item 6, example_item 7]"
    by (simp add: written_items_def slot_skipped_def slot_item_def slot_queryid_def
        example_cfg_def example_slot_def example_item_def)
  have len2: "length (items (pgws_history_ring ?st2)) = pgwsHistoryBufferSize ?cfg"
    by (simp add: example_shared_def example_cfg_def)
  note t1 = history_ring_wraps [OF run len]
  note t2 = history_ring_wraps [OF run2 len2]
  have a: "index (pgws_history_ring ?st') = 6
      \<and> [example_item 5, example_item 6, example_item 7] ! (3 mod 3) = example_item 5
      \<and> [example_item 5, example_item 6, example_item 7] ! (4 mod 3) = example_item 6
      \<and> [example_item 5, example_item 6, example_item 7] ! (5 mod 3) = example_item 7
      \<and> mset [example_item 5, example_item 6, example_item 7]
       = mset (drop (6 - 3) [example_item 1, example_item 3, example_item 4, example_item 5,
                             example_item 6, example_item 7])"
    using t1 unfolding ws by (simp add: example_shared_def example_cfg_def)
  have b: "[example_item 5, example_item 6, example_item 7] ! ((4 + 0) mod 3) = example_item 6
      \<and> [example_item 5, example_item 6, example_item 7] ! ((4 + 1) mod 3) = example_item 7
      \<and> [example_item 5, example_item 6, example_item 7] ! 0
          = [example_item 5, example_item 3, example_item 4] ! 0"
    using t2 unfolding ws2 by (simp add: example_shared_def example_cfg_def)
  from run len ws a run2 b show ?thesis
    by (intro conjI) simp_all
qed

section \<open>Which entries an eviction pass removes\<close>

lemma usage_decay: "usage (decay e) = double_mul (usage e) USAGE_DECREASE_FACTOR"
  by (simp add: decay_def)

lemma valof_usage_decay:
  "valof (usage (decay e)) = double_round (valof (usage e) * double_round (99 / 100))"
  by (simp add: decay_def valof_double_mul USAGE_DECREASE_FACTOR_def valof_double_of_real)

lemma counter_decay: "counter (decay e) = counter e"
  by (simp add: decay_def)

lemma distinct_keys_decay: "distinct_keys tbl \<Longrightarrow> distinct_keys (map decay tbl)"
  by (simp add: distinct_keys_def key_decay comp_def)

text \<open>With one entry per key, removing the victims' keys removes the victims and nothing else.\<close>

lemma pgws_entry_dealloc_distinct:
  assumes "distinct_keys tbl"
  shows "pgws_entry_dealloc tbl =
     filter (\<lambda>e. e \<notin> set (take (nat (nvictims_of (int (length tbl))))
                              (qsort_entries (map decay tbl))))
       (map decay tbl)"
proof -
  let ?d = "map decay tbl"
  let ?V = "take (nat (nvictims_of (int (length tbl)))) (qsort_entries ?d)"
  have "distinct (map key ?d)"
    using distinct_keys_decay [OF assms] by (simp only: distinct_keys_def)
  then have inj: "inj_on key (set ?d)"
    by (simp only: distinct_map)
  have sub: "set ?V \<subseteq> set ?d"
    using set_take_subset [of _ "qsort_entries ?d"] by (auto simp: qsort_entries_sort_key)
  have "key e \<in> key ` set ?V \<longleftrightarrow> e \<in> set ?V" if "e \<in> set ?d" for e
    using that inj sub by (auto dest: inj_onD)
  then show ?thesis
    unfolding pgws_entry_dealloc_filter by (intro filter_cong refl) simp
qed

text \<open>
  The entries after decay split into the victims and the entries kept, and no victim
  has a higher usage than an entry kept.
\<close>

lemma eviction_split:
  assumes "distinct_keys tbl"
  shows "\<exists>victims. length victims = nat (nvictims_of (int (length tbl)))
           \<and> mset (map decay tbl) = mset victims + mset (pgws_entry_dealloc tbl)
           \<and> (\<forall>v \<in> set victims. \<forall>s \<in> set (pgws_entry_dealloc tbl).
                 valof (usage v) \<le> valof (usage s))
           \<and> (distinct (map (\<lambda>e. valof (usage (decay e))) tbl) \<longrightarrow>
                (\<forall>v \<in> set victims. \<forall>s \<in> set (pgws_entry_dealloc tbl).
                   valof (usage v) < valof (usage s)))"
proof -
  let ?d = "map decay tbl"
  let ?s = "qsort_entries ?d"
  let ?n = "nat (nvictims_of (int (length tbl)))"
  let ?V = "take ?n ?s"
  let ?u = "\<lambda>e. valof (usage e)"
  have R: "pgws_entry_dealloc tbl = filter (\<lambda>e. e \<notin> set ?V) ?d"
    using assms(1) by (rule pgws_entry_dealloc_distinct)
  have "distinct (map key ?d)"
    using distinct_keys_decay [OF assms(1)] by (simp only: distinct_keys_def)
  then have dist_d: "distinct ?d"
    by (simp only: distinct_map)
  have set_s: "set ?s = set ?d" and dist_s: "distinct ?s" and len_s: "length ?s = length tbl"
    using dist_d by (simp_all add: qsort_entries_sort_key)
  have n: "?n \<le> length tbl"
    using nvictims_of_le [of "int (length tbl)"] by simp
  have len: "length ?V = ?n"
    using n len_s by simp
  have "set (filter (\<lambda>e. e \<in> set ?V) ?d) = set ?V"
    using set_take_subset [of ?n ?s] set_s by auto
  moreover have "distinct (filter (\<lambda>e. e \<in> set ?V) ?d)" "distinct ?V"
    using dist_d dist_s by simp_all
  ultimately have "mset (filter (\<lambda>e. e \<in> set ?V) ?d) = mset ?V"
    by (simp only: set_eq_iff_mset_eq_distinct)
  moreover have "mset ?d = mset (filter (\<lambda>e. e \<in> set ?V) ?d) + mset (filter (\<lambda>e. e \<notin> set ?V) ?d)"
    by (induction ?d) simp_all
  ultimately have split: "mset ?d = mset ?V + mset (pgws_entry_dealloc tbl)"
    by (simp only: R)
  have sorted: "sorted (map ?u (take ?n ?s @ drop ?n ?s))"
    by (simp add: qsort_entries_sort_key)
  have facts: "?u v \<le> ?u r \<and> v \<in> set ?d \<and> r \<in> set ?d \<and> v \<noteq> r"
    if v: "v \<in> set ?V" and r: "r \<in> set (pgws_entry_dealloc tbl)" for v r
  proof -
    from r R have rd: "r \<in> set ?d" and rV: "r \<notin> set ?V" by auto
    have "set ?s = set ?V \<union> set (drop ?n ?s)"
      by (metis append_take_drop_id set_append)
    with rd rV set_s have r_drop: "r \<in> set (drop ?n ?s)" by blast
    from sorted v r_drop have "?u v \<le> ?u r"
      unfolding map_append sorted_append by auto
    moreover from v set_take_subset [of ?n ?s] set_s have "v \<in> set ?d" by auto
    ultimately show ?thesis using rd v rV by auto
  qed
  have strict: "?u v < ?u r"
    if d: "distinct (map (\<lambda>e. valof (usage (decay e))) tbl)"
      and v: "v \<in> set ?V" and r: "r \<in> set (pgws_entry_dealloc tbl)" for v r
  proof -
    have "map ?u ?d = map (\<lambda>e. valof (usage (decay e))) tbl"
      by (simp add: comp_def)
    with d have "distinct (map ?u ?d)" by (simp only:)
    then have "inj_on ?u (set ?d)" by (simp only: distinct_map)
    with facts [OF v r] have "?u v \<noteq> ?u r" by (auto dest: inj_onD)
    with facts [OF v r] show ?thesis by simp
  qed
  from len split facts strict show ?thesis by blast
qed

text \<open>
  C2, with the usage values distinct after the decay: on a table with one entry per
  key, an eviction pass splits the decayed entries into \<open>nvictims\<close> victims and the
  entries it keeps, and no victim has a higher usage after decay than an entry kept.
  If the usage values after decay are pairwise distinct, every victim has a lower
  usage than every entry kept: the victims are exactly the \<open>nvictims\<close> entries of
  lowest usage. \<open>nvictims\<close> is the larger of 10 and 5 percent (rounded down) of the
  number of entries, clamped to that number.
\<close>

theorem eviction_removes_lowest_usage:
  assumes "distinct_keys tbl"
  shows "(\<exists>victims. int (length victims) = nvictims_of (int (length tbl))
            \<and> mset (map decay tbl) = mset victims + mset (pgws_entry_dealloc tbl)
            \<and> (\<forall>v \<in> set victims. \<forall>s \<in> set (pgws_entry_dealloc tbl).
                  valof (usage v) \<le> valof (usage s))
            \<and> (distinct (map (\<lambda>e. valof (usage (decay e))) tbl) \<longrightarrow>
                 (\<forall>v \<in> set victims. \<forall>s \<in> set (pgws_entry_dealloc tbl).
                    valof (usage v) < valof (usage s))))
    \<and> nvictims_of (int (length tbl))
        = min (max 10 (int (length tbl) * 5 div 100)) (int (length tbl))
    \<and> length (pgws_entry_dealloc tbl) = length tbl - nat (nvictims_of (int (length tbl)))"
proof -
  from eviction_split [OF assms] obtain victims
    where v: "length victims = nat (nvictims_of (int (length tbl)))"
      "mset (map decay tbl) = mset victims + mset (pgws_entry_dealloc tbl)"
      "\<forall>v \<in> set victims. \<forall>s \<in> set (pgws_entry_dealloc tbl). valof (usage v) \<le> valof (usage s)"
      "distinct (map (\<lambda>e. valof (usage (decay e))) tbl) \<longrightarrow>
         (\<forall>v \<in> set victims. \<forall>s \<in> set (pgws_entry_dealloc tbl).
            valof (usage v) < valof (usage s))"
    by blast
  have nv: "nvictims_of (int (length tbl))
        = min (max 10 (int (length tbl) * 5 div 100)) (int (length tbl))"
    by (simp add: nvictims_of_def USAGE_DEALLOC_MIN_NUM_def USAGE_DEALLOC_PERCENT_def)
  then have "0 \<le> nvictims_of (int (length tbl))" by simp
  with v(1) have "int (length victims) = nvictims_of (int (length tbl))" by simp
  moreover from v(2) have "size (mset (map decay tbl)) = size (mset victims + mset (pgws_entry_dealloc tbl))"
    by simp
  then have "length (pgws_entry_dealloc tbl) = length tbl - nat (nvictims_of (int (length tbl)))"
    using v(1) by simp
  ultimately show ?thesis using v(2,3,4) nv by blast
qed

theorem eviction_removes_lowest_usage_witness:
  "distinct_keys example_table
   \<and> distinct (map (\<lambda>e. valof (usage (decay e))) example_table)
   \<and> (\<exists>victims. int (length victims) = nvictims_of (int (length example_table))
          \<and> mset (map decay example_table) = mset victims + mset (pgws_entry_dealloc example_table)
          \<and> (\<forall>v \<in> set victims. \<forall>s \<in> set (pgws_entry_dealloc example_table).
                valof (usage v) < valof (usage s)))
   \<and> nvictims_of (int (length example_table)) = 10
   \<and> pgws_entry_dealloc example_table
       = [decay (example_entry 3 9 12), decay (example_entry 7 8 11)]"
proof -
  have dk: "distinct_keys example_table"
    by (simp add: distinct_keys_def example_table_def example_entry_def example_key_def)
  have du: "distinct (map (\<lambda>e. valof (usage (decay e))) example_table)"
    by (simp add: example_table_def example_entry_def decay_def valof_decay_examples)
  have nv: "nvictims_of (int (length example_table)) = 10"
    by (simp add: nvictims_of_def example_table_def USAGE_DEALLOC_MIN_NUM_def
        USAGE_DEALLOC_PERCENT_def)
  have ev: "pgws_entry_dealloc example_table
       = [decay (example_entry 3 9 12), decay (example_entry 7 8 11)]"
    unfolding pgws_entry_dealloc_filter nv
    by (simp add: example_table_def example_entry_def example_key_def qsort_entries_def
        qsort_def entry_cmp_def decay_def valof_decay_examples)
  from eviction_removes_lowest_usage [OF dk] du
  have "\<exists>victims. int (length victims) = nvictims_of (int (length example_table))
          \<and> mset (map decay example_table) = mset victims + mset (pgws_entry_dealloc example_table)
          \<and> (\<forall>v \<in> set victims. \<forall>s \<in> set (pgws_entry_dealloc example_table).
                valof (usage v) < valof (usage s))"
    by blast
  with dk du nv ev show ?thesis
    by (intro conjI)
qed

text \<open>
  Usage values that are pairwise distinct before the decay are not enough. Those of
  \<open>tie_table\<close> are, but the two highest become equal by the decay: the pass keeps
  one of the two and removes the other, whose usage after decay is not lower; in
  this table order it removes the one whose usage was higher.
\<close>

theorem eviction_tie_counterexample:
  "distinct_keys tie_table
   \<and> distinct (map (\<lambda>e. valof (usage e)) tie_table)
   \<and> nvictims_of (int (length tie_table)) = 10
   \<and> pgws_entry_dealloc tie_table = [decay tie_low]
   \<and> tie_high \<in> set tie_table
   \<and> decay tie_high \<notin> set (pgws_entry_dealloc tie_table)
   \<and> valof (usage (decay tie_high)) = valof (usage (decay tie_low))
   \<and> valof (usage tie_low) < valof (usage tie_high)"
proof -
  have dk: "distinct_keys tie_table"
    by (simp add: distinct_keys_def tie_table_def tie_high_def tie_low_def example_entry_def
        example_key_def)
  have du: "distinct (map (\<lambda>e. valof (usage e)) tie_table)"
    by (simp add: tie_table_def tie_high_def tie_low_def example_entry_def
        valof_double_of_one valof_double_of_numeral valof_tie_high_usage valof_tie_low_usage)
  have nv: "nvictims_of (int (length tie_table)) = 10"
    by (simp add: nvictims_of_def tie_table_def USAGE_DEALLOC_MIN_NUM_def
        USAGE_DEALLOC_PERCENT_def)
  have ev: "pgws_entry_dealloc tie_table = [decay tie_low]"
    unfolding pgws_entry_dealloc_filter nv
    by (simp add: tie_table_def tie_high_def tie_low_def example_entry_def example_key_def
        qsort_entries_def qsort_def entry_cmp_def decay_def valof_decay_examples
        valof_decay_tie_high valof_decay_tie_low)
  have mem: "tie_high \<in> set tie_table"
    by (simp add: tie_table_def)
  have out: "decay tie_high \<notin> set (pgws_entry_dealloc tie_table)"
    unfolding ev by (simp add: decay_def tie_high_def tie_low_def example_key_def)
  have tie: "valof (usage (decay tie_high)) = valof (usage (decay tie_low))"
    by (simp add: decay_def tie_high_def tie_low_def valof_decay_tie_high valof_decay_tie_low)
  have lt: "valof (usage tie_low) < valof (usage tie_high)"
    by (simp add: tie_high_def tie_low_def valof_tie_high_usage valof_tie_low_usage)
  from dk du nv ev mem out tie lt show ?thesis
    by (intro conjI)
qed

text \<open>
  Which of the two is removed depends on their order in the table only: with the two
  entries exchanged the pass keeps the other one. A sort cannot tell entries that
  compare equal apart, so whatever order it leaves them in, one of the two table
  orders puts the entry whose usage was higher among the victims.
\<close>

lemma eviction_tie_other_order:
  "pgws_entry_dealloc tie_table_swapped = [decay tie_high]
   \<and> mset tie_table_swapped = mset tie_table"
proof -
  have nv: "nvictims_of (int (length tie_table_swapped)) = 10"
    by (simp add: nvictims_of_def tie_table_swapped_def USAGE_DEALLOC_MIN_NUM_def
        USAGE_DEALLOC_PERCENT_def)
  have ev: "pgws_entry_dealloc tie_table_swapped = [decay tie_high]"
    unfolding pgws_entry_dealloc_filter nv
    by (simp add: tie_table_swapped_def tie_high_def tie_low_def example_entry_def example_key_def
        qsort_entries_def qsort_def entry_cmp_def decay_def valof_decay_examples
        valof_decay_tie_high valof_decay_tie_low)
  have "mset tie_table_swapped = mset tie_table"
    by (simp add: tie_table_swapped_def tie_table_def)
  with ev show ?thesis by simp
qed

section \<open>Where usage decays\<close>

lemma entry_update_nth:
  "i < length tbl \<Longrightarrow>
     entry_update k f tbl ! i = (if key (tbl ! i) = k then f (tbl ! i) else tbl ! i)"
  by (simp add: entry_update_def)

lemma make_space_room:
  "int (length tbl) < maxe \<Longrightarrow> make_space maxe tbl = Some tbl"
  by (subst make_space.simps) simp

text \<open>
  C8: an eviction pass multiplies the usage of every entry of the table by the
  decay factor, the double nearest to 0.99, once (a multiplication of doubles, which
  rounds and does not raise the usage), and sorts the decayed entries; what it
  returns are decayed entries of the table. An observation that runs no eviction
  (the key is in the table, or the table is below the bound) leaves every entry in
  its place with a usage that is not lower than before.
\<close>

theorem decay_only_in_eviction:
  "pgws_entry_dealloc tbl =
     filter (\<lambda>e. key e \<notin> key ` set (take (nat (nvictims_of (int (length tbl))))
                                        (qsort_entries (map decay tbl))))
       (map decay tbl)
   \<and> usage (decay e) = double_mul (usage e) USAGE_DECREASE_FACTOR
   \<and> valof (usage (decay e)) = double_round (valof (usage e) * double_round (99 / 100))
   \<and> valof (usage (decay e)) \<le> valof (usage e)
   \<and> key (decay e) = key e
   \<and> counter (decay e) = counter e
   \<and> ((hash_find (profile_key cfg pid wei qid) tbl \<noteq> None
          \<or> int (length tbl) < pgwsMaxProfileEntries cfg)
        \<and> profile_write cfg pid wei qid tbl = Some tbl' \<longrightarrow>
      length tbl \<le> length tbl'
      \<and> (\<forall>i < length tbl. key (tbl' ! i) = key (tbl ! i)
            \<and> valof (usage (tbl ! i)) \<le> valof (usage (tbl' ! i))))"
proof (intro conjI impI)
  show "pgws_entry_dealloc tbl =
     filter (\<lambda>e. key e \<notin> key ` set (take (nat (nvictims_of (int (length tbl))))
                                        (qsort_entries (map decay tbl))))
       (map decay tbl)"
    by (rule pgws_entry_dealloc_filter)
  show "usage (decay e) = double_mul (usage e) USAGE_DECREASE_FACTOR" by (rule usage_decay)
  show "valof (usage (decay e)) = double_round (valof (usage e) * double_round (99 / 100))"
    by (rule valof_usage_decay)
  show "valof (usage (decay e)) \<le> valof (usage e)"
    unfolding usage_decay by (rule double_mul_le) (simp add: valof_USAGE_DECREASE_FACTOR)
  show "key (decay e) = key e" by (rule key_decay)
  show "counter (decay e) = counter e" by (rule counter_decay)
next
  let ?k = "profile_key cfg pid wei qid"
  assume a: "(hash_find ?k tbl \<noteq> None \<or> int (length tbl) < pgwsMaxProfileEntries cfg)
        \<and> profile_write cfg pid wei qid tbl = Some tbl'"
  have "length tbl \<le> length tbl'
      \<and> (\<forall>i < length tbl. key (tbl' ! i) = key (tbl ! i)
            \<and> valof (usage (tbl ! i)) \<le> valof (usage (tbl' ! i)))"
  proof (cases "hash_find ?k tbl")
    case (Some e0)
    with a have "tbl' = entry_update ?k
        (\<lambda>e. e\<lparr>counter := counter e + 1, usage := double_add (usage e) USAGE_INCREASE\<rparr>) tbl"
      by (simp add: profile_write_def Let_def)
    then show ?thesis
      by (simp add: entry_update_length entry_update_nth double_add_ge)
  next
    case None
    with a have "int (length tbl) < pgwsMaxProfileEntries cfg" by simp
    then have ms: "make_space (pgwsMaxProfileEntries cfg) tbl = Some tbl"
      by (rule make_space_room)
    from profile_write_new [OF None] a ms
    have "tbl' = tbl @ [\<lparr>key = ?k, counter = 1, usage = USAGE_INIT\<rparr>]"
      by auto
    then show ?thesis
      by (simp add: nth_append)
  qed
  then show "length tbl \<le> length tbl'"
    and "\<forall>i < length tbl. key (tbl' ! i) = key (tbl ! i)
            \<and> valof (usage (tbl ! i)) \<le> valof (usage (tbl' ! i))"
    by simp_all
qed

theorem decay_only_in_eviction_witness:
  "pgws_entry_dealloc example_table
     = [decay (example_entry 3 9 12), decay (example_entry 7 8 11)]
   \<and> valof (usage (decay (example_entry 3 9 12))) = double_round (12 * double_round (99 / 100))
   \<and> valof (usage (decay (example_entry 3 9 12))) \<le> 12
   \<and> hash_find (profile_key (example_cfg 4 20) 3 1 0) example_table = Some (example_entry 3 9 12)
   \<and> profile_write (example_cfg 4 20) 3 1 0 example_table
       = Some (example_table [2 := example_entry 3 10 13])
   \<and> length example_table \<le> length (example_table [2 := example_entry 3 10 13])
   \<and> valof (usage (example_table ! 2))
       \<le> valof (usage (example_table [2 := example_entry 3 10 13] ! 2))"
proof -
  have f: "hash_find (profile_key (example_cfg 4 20) 3 1 0) example_table
      = Some (example_entry 3 9 12)"
    by (simp add: hash_find_def profile_key_def example_cfg_def example_table_def
        example_entry_def example_key_def)
  have w: "profile_write (example_cfg 4 20) 3 1 0 example_table
       = Some (example_table [2 := example_entry 3 10 13])"
    by (simp add: profile_write_def Let_def hash_find_def entry_update_def profile_key_def
        example_cfg_def example_table_def example_entry_def example_key_def USAGE_INCREASE_def
        double_add_numerals)
  have nv: "nvictims_of (int (length example_table)) = 10"
    by (simp add: nvictims_of_def example_table_def USAGE_DEALLOC_MIN_NUM_def
        USAGE_DEALLOC_PERCENT_def)
  have ev: "filter (\<lambda>e. key e \<notin> key ` set (take (nat (nvictims_of (int (length example_table))))
                                        (qsort_entries (map decay example_table))))
       (map decay example_table)
       = [decay (example_entry 3 9 12), decay (example_entry 7 8 11)]"
    unfolding nv
    by (simp add: example_table_def example_entry_def example_key_def qsort_entries_def
        qsort_def entry_cmp_def decay_def valof_decay_examples)
  have v12: "valof (usage (example_entry 3 9 12)) = 12"
    by (simp add: example_entry_def valof_double_of_numeral)
  note t = decay_only_in_eviction [of example_table "example_entry 3 9 12" "example_cfg 4 20"
      3 1 0 "example_table [2 := example_entry 3 10 13]"]
  from t have "pgws_entry_dealloc example_table
       = filter (\<lambda>e. key e \<notin> key ` set (take (nat (nvictims_of (int (length example_table))))
                                        (qsort_entries (map decay example_table))))
       (map decay example_table)"
    by blast
  then have a: "pgws_entry_dealloc example_table
       = [decay (example_entry 3 9 12), decay (example_entry 7 8 11)]"
    unfolding ev .
  from t have "valof (usage (decay (example_entry 3 9 12)))
        = double_round (valof (usage (example_entry 3 9 12)) * double_round (99 / 100))
      \<and> valof (usage (decay (example_entry 3 9 12))) \<le> valof (usage (example_entry 3 9 12))"
    by blast
  then have b: "valof (usage (decay (example_entry 3 9 12)))
        = double_round (12 * double_round (99 / 100))
      \<and> valof (usage (decay (example_entry 3 9 12))) \<le> 12"
    unfolding v12 .
  from f have h: "hash_find (profile_key (example_cfg 4 20) 3 1 0) example_table \<noteq> None
      \<or> int (length example_table) < pgwsMaxProfileEntries (example_cfg 4 20)"
    by simp
  from t h w have q: "length example_table \<le> length (example_table [2 := example_entry 3 10 13])
      \<and> (\<forall>i < length example_table.
            key (example_table [2 := example_entry 3 10 13] ! i) = key (example_table ! i)
            \<and> valof (usage (example_table ! i))
                \<le> valof (usage (example_table [2 := example_entry 3 10 13] ! i)))"
    by blast
  have l: "2 < length example_table"
    by (simp add: example_table_def)
  from q l have c: "length example_table \<le> length (example_table [2 := example_entry 3 10 13])
      \<and> valof (usage (example_table ! 2))
          \<le> valof (usage (example_table [2 := example_entry 3 10 13] ! 2))"
    by blast
  from a b f w c show ?thesis
    by blast
qed

section \<open>Aggregation in the profile table\<close>

lemma hash_find_entry_update:
  assumes "\<And>e. key (f e) = key e"
  shows "hash_find k' (entry_update k f tbl) =
     (if k' = k then map_option f (hash_find k tbl) else hash_find k' tbl)"
  using assms by (induction tbl) (auto simp: hash_find_def entry_update_def)

lemma hash_find_append:
  "hash_find k (tbl @ [e]) =
     (case hash_find k tbl of Some e' \<Rightarrow> Some e' | None \<Rightarrow> if key e = k then Some e else None)"
  by (induction tbl) (auto simp: hash_find_def)

lemma key_entry_update: "(\<And>e. key (f e) = key e) \<Longrightarrow> map key (entry_update k f tbl) = map key tbl"
  by (induction tbl) (auto simp: entry_update_def)

lemma tally_0: "tally 0 k found = found"
  by (simp add: tally_def)

lemma tally_None_iff: "tally n k found = None \<longleftrightarrow> n = 0 \<and> found = None"
  by (simp add: tally_def split: option.splits)

lemma funpow_increase:
  "((\<lambda>u. double_add u USAGE_INCREASE) ^^ n) (((\<lambda>u. double_add u USAGE_INCREASE) ^^ m) u)
     = ((\<lambda>u. double_add u USAGE_INCREASE) ^^ (n + m)) u"
  by (simp add: funpow_add)

lemma tally_add: "tally n k (tally m k found) = tally (m + n) k found"
proof (cases "m = 0 \<or> n = 0")
  case True
  then show ?thesis
    by (auto simp: tally_def split: option.splits)
next
  case False
  then have m: "0 < m" and n: "0 < n" by simp_all
  show ?thesis
  proof (cases found)
    case None
    from m have "m + n - 1 = n + (m - 1)" by simp
    then have "((\<lambda>u. double_add u USAGE_INCREASE) ^^ n)
          (((\<lambda>u. double_add u USAGE_INCREASE) ^^ (m - 1)) USAGE_INIT)
        = ((\<lambda>u. double_add u USAGE_INCREASE) ^^ (m + n - 1)) USAGE_INIT"
      by (simp only: funpow_increase)
    with None m n show ?thesis
      by (simp add: tally_def)
  next
    case (Some e)
    have "((\<lambda>u. double_add u USAGE_INCREASE) ^^ n)
          (((\<lambda>u. double_add u USAGE_INCREASE) ^^ m) (usage e))
        = ((\<lambda>u. double_add u USAGE_INCREASE) ^^ (m + n)) (usage e)"
      by (simp only: funpow_increase add.commute [of n m])
    with Some m n show ?thesis
      by (simp add: tally_def)
  qed
qed

lemma keys_of_tally:
  assumes "\<And>K. hash_find K tbl' = tally (count_list ks K) K (hash_find K tbl)"
  shows "key ` set tbl' = key ` set tbl \<union> set ks"
proof -
  have "K \<in> key ` set tbl' \<longleftrightarrow> K \<in> key ` set tbl \<union> set ks" for K
  proof -
    have "K \<in> key ` set tbl' \<longleftrightarrow> hash_find K tbl' \<noteq> None"
      by (simp add: hash_find_None_iff)
    also have "\<dots> \<longleftrightarrow> count_list ks K \<noteq> 0 \<or> hash_find K tbl \<noteq> None"
      by (simp only: assms tally_None_iff de_Morgan_conj)
    also have "\<dots> \<longleftrightarrow> K \<in> set ks \<or> K \<in> key ` set tbl"
      by (simp add: hash_find_None_iff count_list_0_iff)
    finally show ?thesis by auto
  qed
  then show ?thesis by blast
qed

text \<open>One observation that needs no eviction.\<close>

lemma profile_write_step:
  assumes dk: "distinct_keys tbl"
    and room: "profile_key cfg pid wei qid \<in> key ` set tbl
      \<or> int (length tbl) < pgwsMaxProfileEntries cfg"
  shows "\<exists>tbl1. profile_write cfg pid wei qid tbl = Some tbl1 \<and> distinct_keys tbl1
     \<and> key ` set tbl1 = insert (profile_key cfg pid wei qid) (key ` set tbl)
     \<and> (\<forall>K. hash_find K tbl1 =
           (if K = profile_key cfg pid wei qid
            then tally 1 K (hash_find K tbl) else hash_find K tbl))"
proof (cases "hash_find (profile_key cfg pid wei qid) tbl")
  case None
  let ?k = "profile_key cfg pid wei qid"
  let ?new = "\<lparr>key = ?k, counter = 1, usage = USAGE_INIT\<rparr>"
  from None have absent: "?k \<notin> key ` set tbl"
    by (simp add: hash_find_None_iff)
  with room have "int (length tbl) < pgwsMaxProfileEntries cfg" by blast
  then have ms: "make_space (pgwsMaxProfileEntries cfg) tbl = Some tbl"
    by (rule make_space_room)
  from make_space_returns [of "pgwsMaxProfileEntries cfg" tbl] ms None
  have ex: "\<exists>t. profile_write cfg pid wei qid tbl = Some t"
    by (simp add: profile_write_def Let_def)
  then obtain t where t: "profile_write cfg pid wei qid tbl = Some t" by blast
  from profile_write_new [OF None t] ms have t_eq: "t = tbl @ [?new]" by auto
  have "distinct_keys t"
    using dk absent by (simp add: t_eq distinct_keys_def)
  moreover have "key ` set t = insert ?k (key ` set tbl)"
    by (simp add: t_eq)
  moreover have "hash_find K t = (if K = ?k then tally 1 K (hash_find K tbl) else hash_find K tbl)" for K
    using None by (auto simp: t_eq hash_find_append tally_def split: option.splits)
  ultimately show ?thesis using t by blast
next
  case (Some e0)
  let ?k = "profile_key cfg pid wei qid"
  let ?f = "\<lambda>e. e\<lparr>counter := counter e + 1, usage := double_add (usage e) USAGE_INCREASE\<rparr>"
  from Some have t: "profile_write cfg pid wei qid tbl = Some (entry_update ?k ?f tbl)"
    by (simp add: profile_write_def Let_def)
  have keys: "map key (entry_update ?k ?f tbl) = map key tbl"
    by (rule key_entry_update) simp
  have "distinct_keys (entry_update ?k ?f tbl)"
    using dk by (simp only: distinct_keys_def keys)
  moreover have "key ` set (entry_update ?k ?f tbl) = insert ?k (key ` set tbl)"
  proof -
    have "key ` set (entry_update ?k ?f tbl) = set (map key (entry_update ?k ?f tbl))"
      by (simp only: set_map)
    also have "\<dots> = key ` set tbl"
      by (simp only: keys set_map)
    also have "\<dots> = insert ?k (key ` set tbl)"
      using hash_find_None_iff [of ?k tbl] Some by auto
    finally show ?thesis .
  qed
  moreover have "hash_find K (entry_update ?k ?f tbl)
      = (if K = ?k then tally 1 K (hash_find K tbl) else hash_find K tbl)" for K
    using Some by (simp add: hash_find_entry_update tally_def)
  ultimately show ?thesis using t by blast
qed

text \<open>What a slot does to the profile table.\<close>

lemma probe_slot_profile:
  assumes "probe_slot wh True cfg p st = Some (Inr st')"
  shows "if slot_skipped p then st' = st
     else profile_write cfg (proc_pid p) (proc_wait_event_info p) (slot_queryid cfg p)
            (pgws_profile_hash st) = Some (pgws_profile_hash st')"
  using assms
  by (auto simp: probe_slot_def Let_def slot_skipped_def slot_queryid_def
      split: if_splits sum.splits option.splits)

lemma observed_keys_Cons:
  "observed_keys cfg (p # procs) =
     (if slot_skipped p then observed_keys cfg procs else slot_key cfg p # observed_keys cfg procs)"
  by (simp add: observed_keys_def)

lemma card_keys_length: "distinct_keys tbl \<Longrightarrow> card (key ` set tbl) = length tbl"
  by (metis distinct_keys_def distinct_card length_map set_map)

lemma room_for_key:
  assumes "distinct_keys tbl"
    and "int (card (key ` set tbl \<union> set (k # ks))) \<le> maxe"
  shows "k \<in> key ` set tbl \<or> int (length tbl) < maxe"
proof (cases "k \<in> key ` set tbl")
  case True
  then show ?thesis by simp
next
  case False
  have "card (insert k (key ` set tbl)) \<le> card (key ` set tbl \<union> set (k # ks))"
    by (intro card_mono) auto
  with False have "length tbl < card (key ` set tbl \<union> set (k # ks))"
    by (simp add: card_keys_length [OF assms(1)])
  with assms(2) show ?thesis by simp
qed

text \<open>Keys that fit leave room for the first of them, and the others fit afterwards.\<close>

lemma keys_fit_step:
  assumes "distinct_keys tbl" and "keys_fit cfg tbl (k # ks)"
  shows "k \<in> key ` set tbl \<or> int (length tbl) < pgwsMaxProfileEntries cfg"
proof (cases "set (k # ks) \<subseteq> key ` set tbl")
  case True
  then show ?thesis by simp
next
  case False
  with assms(2) have "int (card (key ` set tbl \<union> set (k # ks))) \<le> pgwsMaxProfileEntries cfg"
    by (auto simp: keys_fit_def)
  with assms(1) show ?thesis by (rule room_for_key)
qed

lemma keys_fit_prefix:
  assumes "keys_fit cfg tbl (ks @ ks')"
  shows "keys_fit cfg tbl ks"
proof (cases "set (ks @ ks') \<subseteq> key ` set tbl")
  case True
  then show ?thesis by (simp add: keys_fit_def)
next
  case False
  with assms have c: "int (card (key ` set tbl \<union> set (ks @ ks'))) \<le> pgwsMaxProfileEntries cfg"
    by (auto simp: keys_fit_def)
  have "card (key ` set tbl \<union> set ks) \<le> card (key ` set tbl \<union> set (ks @ ks'))"
    by (intro card_mono) auto
  with c show ?thesis by (simp add: keys_fit_def)
qed

lemma keys_fit_rest:
  assumes "keys_fit cfg tbl (ks @ ks')" and "key ` set tbl1 = key ` set tbl \<union> set ks"
  shows "keys_fit cfg tbl1 ks'"
proof (cases "set (ks @ ks') \<subseteq> key ` set tbl")
  case True
  with assms(2) show ?thesis by (auto simp: keys_fit_def)
next
  case False
  with assms(1) have c: "int (card (key ` set tbl \<union> set (ks @ ks'))) \<le> pgwsMaxProfileEntries cfg"
    by (auto simp: keys_fit_def)
  have "key ` set tbl1 \<union> set ks' = key ` set tbl \<union> set (ks @ ks')"
    using assms(2) by auto
  with c show ?thesis by (simp add: keys_fit_def)
qed

text \<open>A pass without \<open>write_profile\<close> leaves the table as it is.\<close>

lemma probe_slot_no_profile:
  "probe_slot wh False cfg p st = Some (Inr st') \<Longrightarrow> pgws_profile_hash st' = pgws_profile_hash st"
  by (auto simp: probe_slot_def Let_def split: if_splits sum.splits)

lemma probe_waits_no_profile:
  "probe_waits wh False cfg procs st = Some (Inr st') \<Longrightarrow>
     pgws_profile_hash st' = pgws_profile_hash st"
proof (induction procs arbitrary: st)
  case Nil
  then show ?case by simp
next
  case (Cons p procs)
  from Cons.prems obtain st1 where s1: "probe_slot wh False cfg p st = Some (Inr st1)"
    and rest: "probe_waits wh False cfg procs st1 = Some (Inr st')"
    by (auto split: option.splits sum.splits)
  from Cons.IH [OF rest] probe_slot_no_profile [OF s1] show ?case by simp
qed

text \<open>The table after a pass in which no eviction runs.\<close>

lemma probe_waits_profile:
  assumes "probe_waits wh True cfg procs st = Some (Inr st')"
    and "distinct_keys (pgws_profile_hash st)"
    and "keys_fit cfg (pgws_profile_hash st) (observed_keys cfg procs)"
  shows "hash_find K (pgws_profile_hash st')
           = tally (count_list (observed_keys cfg procs) K) K (hash_find K (pgws_profile_hash st))"
  using assms
proof (induction procs arbitrary: st)
  case Nil
  then show ?case by (simp add: observed_keys_def tally_0)
next
  case (Cons p procs)
  from Cons.prems(1) obtain st1 where s1: "probe_slot wh True cfg p st = Some (Inr st1)"
    and rest: "probe_waits wh True cfg procs st1 = Some (Inr st')"
    by (auto split: option.splits sum.splits)
  show ?case
  proof (cases "slot_skipped p")
    case True
    with probe_slot_profile [OF s1] have "st1 = st" by simp
    with Cons.IH [OF rest] Cons.prems True show ?thesis
      by (simp add: observed_keys_Cons)
  next
    case False
    let ?k = "slot_key cfg p"
    let ?tbl = "pgws_profile_hash st"
    let ?ks = "observed_keys cfg procs"
    from False have obs: "observed_keys cfg (p # procs) = ?k # ?ks"
      by (simp add: observed_keys_Cons)
    from False probe_slot_profile [OF s1]
    have w: "profile_write cfg (proc_pid p) (proc_wait_event_info p) (slot_queryid cfg p) ?tbl
        = Some (pgws_profile_hash st1)" by simp
    have k: "?k = profile_key cfg (proc_pid p) (proc_wait_event_info p) (slot_queryid cfg p)"
      by (simp add: slot_key_def)
    from Cons.prems(3) have fit: "keys_fit cfg ?tbl (?k # ?ks)"
      by (simp only: obs)
    have room: "?k \<in> key ` set ?tbl \<or> int (length ?tbl) < pgwsMaxProfileEntries cfg"
      using Cons.prems(2) fit by (rule keys_fit_step)
    from profile_write_step [OF Cons.prems(2) room [unfolded k]] w
    have dk1: "distinct_keys (pgws_profile_hash st1)"
      and keys1: "key ` set (pgws_profile_hash st1) = insert ?k (key ` set ?tbl)"
      and find1: "\<And>K. hash_find K (pgws_profile_hash st1)
          = (if K = ?k then tally 1 K (hash_find K ?tbl) else hash_find K ?tbl)"
      unfolding k by auto
    from keys1 have "key ` set (pgws_profile_hash st1) = key ` set ?tbl \<union> set [?k]"
      by simp
    with fit have fit1: "keys_fit cfg (pgws_profile_hash st1) ?ks"
      by (intro keys_fit_rest [of cfg ?tbl "[?k]" ?ks]) simp_all
    from Cons.IH [OF rest dk1 fit1]
    have ih: "hash_find K (pgws_profile_hash st')
        = tally (count_list ?ks K) K (hash_find K (pgws_profile_hash st1))" .
    show ?thesis
    proof (cases "K = ?k")
      case True
      have "tally (count_list ?ks K) K (tally 1 K (hash_find K ?tbl))
          = tally (1 + count_list ?ks K) K (hash_find K ?tbl)"
        by (rule tally_add)
      with True ih find1 [of K] show ?thesis
        by (simp add: obs)
    next
      case False
      with ih find1 [of K] show ?thesis
        by (simp add: obs)
    qed
  qed
qed

lemma probe_waits_keys:
  assumes "probe_waits wh True cfg procs st = Some (Inr st')"
    and "distinct_keys (pgws_profile_hash st)"
    and "keys_fit cfg (pgws_profile_hash st) (observed_keys cfg procs)"
  shows "key ` set (pgws_profile_hash st')
           = key ` set (pgws_profile_hash st) \<union> set (observed_keys cfg procs)"
  by (rule keys_of_tally) (rule probe_waits_profile [OF assms])

text \<open>A pass returns when its ring has the configured size and its keys fit.\<close>

lemma probe_waits_returns:
  assumes "wh \<longrightarrow> 0 < pgwsHistoryBufferSize cfg
             \<and> length (items (pgws_history_ring st)) = pgwsHistoryBufferSize cfg"
    and "distinct_keys (pgws_profile_hash st)"
    and "wp \<longrightarrow> keys_fit cfg (pgws_profile_hash st) (observed_keys cfg procs)"
  shows "\<exists>st'. probe_waits wh wp cfg procs st = Some (Inr st')
           \<and> length (items (pgws_history_ring st')) = length (items (pgws_history_ring st))"
  using assms
proof (induction procs arbitrary: st)
  case Nil
  then show ?case by simp
next
  case (Cons p procs)
  show ?case
  proof (cases "slot_skipped p")
    case True
    then have "probe_slot wh wp cfg p st = Some (Inr st)"
      by (auto simp: probe_slot_def Let_def slot_skipped_def)
    moreover from True have "observed_keys cfg (p # procs) = observed_keys cfg procs"
      by (simp add: observed_keys_Cons)
    ultimately show ?thesis
      using Cons.IH [of st] Cons.prems by simp
  next
    case False
    let ?k = "slot_key cfg p"
    let ?tbl = "pgws_profile_hash st"
    let ?ring = "pgws_history_ring st"
    let ?ks = "observed_keys cfg procs"
    from False have obs: "observed_keys cfg (p # procs) = ?k # ?ks"
      by (simp add: observed_keys_Cons)
    have k: "?k = profile_key cfg (proc_pid p) (proc_wait_event_info p) (slot_queryid cfg p)"
      by (simp add: slot_key_def)
    obtain ring1 where hw: "wh \<longrightarrow> history_write cfg (slot_item cfg p) ?ring = Inr ring1"
      and nh: "\<not> wh \<longrightarrow> ring1 = ?ring"
      and l1: "length (items ring1) = length (items ?ring)"
    proof (cases wh)
      case True
      with Cons.prems(1) have c: "0 < pgwsHistoryBufferSize cfg"
        and l: "length (items ?ring) = pgwsHistoryBufferSize cfg" by simp_all
      from history_write_returns [OF c l, of "slot_item cfg p"]
      obtain r where "history_write cfg (slot_item cfg p) ?ring = Inr r"
        and "length (items r) = pgwsHistoryBufferSize cfg" by blast
      with True l show ?thesis
        by (intro that [of r]) simp_all
    next
      case False
      then show ?thesis
        by (intro that [of ?ring]) simp_all
    qed
    obtain tbl1 where pw: "wp \<longrightarrow> profile_write cfg (proc_pid p) (proc_wait_event_info p)
          (slot_queryid cfg p) ?tbl = Some tbl1"
      and np: "\<not> wp \<longrightarrow> tbl1 = ?tbl"
      and dk1: "distinct_keys tbl1"
      and fit1: "wp \<longrightarrow> keys_fit cfg tbl1 ?ks"
    proof (cases wp)
      case True
      with Cons.prems(3) have fit: "keys_fit cfg ?tbl (?k # ?ks)"
        by (simp add: obs)
      have room: "?k \<in> key ` set ?tbl \<or> int (length ?tbl) < pgwsMaxProfileEntries cfg"
        using Cons.prems(2) fit by (rule keys_fit_step)
      from profile_write_step [OF Cons.prems(2) room [unfolded k]]
      obtain t where w: "profile_write cfg (proc_pid p) (proc_wait_event_info p)
            (slot_queryid cfg p) ?tbl = Some t"
        and dk: "distinct_keys t"
        and keys: "key ` set t = insert ?k (key ` set ?tbl)"
        unfolding k by blast
      from keys have "key ` set t = key ` set ?tbl \<union> set [?k]"
        by simp
      with fit have "keys_fit cfg t ?ks"
        by (intro keys_fit_rest [of cfg ?tbl "[?k]" ?ks]) simp_all
      with True w dk show ?thesis
        by (intro that [of t]) simp_all
    next
      case False
      with Cons.prems(2) show ?thesis
        by (intro that [of ?tbl]) simp_all
    qed
    let ?st1 = "\<lparr>pgws_history_ring = ring1, pgws_profile_hash = tbl1\<rparr>"
    from False hw nh pw np have s1: "probe_slot wh wp cfg p st = Some (Inr ?st1)"
      by (cases wh; cases wp)
        (simp_all add: probe_slot_def Let_def slot_skipped_def slot_item_def slot_queryid_def)
    have "wh \<longrightarrow> 0 < pgwsHistoryBufferSize cfg
        \<and> length (items (pgws_history_ring ?st1)) = pgwsHistoryBufferSize cfg"
      using Cons.prems(1) l1 by simp
    moreover have "distinct_keys (pgws_profile_hash ?st1)"
      using dk1 by simp
    moreover have "wp \<longrightarrow> keys_fit cfg (pgws_profile_hash ?st1) ?ks"
      using fit1 by simp
    ultimately obtain st' where "probe_waits wh wp cfg procs ?st1 = Some (Inr st')"
      and "length (items (pgws_history_ring st')) = length (items (pgws_history_ring ?st1))"
      using Cons.IH [of ?st1] by blast
    with s1 l1 show ?thesis by simp
  qed
qed

text \<open>The table after a sequence of passes in which no eviction runs.\<close>

lemma probe_passes_profile:
  assumes "probe_passes cfg passes st = Some (Inr st')"
    and "distinct_keys (pgws_profile_hash st)"
    and "keys_fit cfg (pgws_profile_hash st) (passes_keys cfg passes)"
  shows "hash_find K (pgws_profile_hash st')
           = tally (count_list (passes_keys cfg passes) K) K (hash_find K (pgws_profile_hash st))"
  using assms
proof (induction cfg passes st rule: probe_passes.induct)
  case (1 cfg st)
  then show ?case by (simp add: tally_0)
next
  case (2 cfg wh wp procs passes st)
  from "2.prems"(1) obtain st1 where p1: "probe_waits wh wp cfg procs st = Some (Inr st1)"
    and rest: "probe_passes cfg passes st1 = Some (Inr st')"
    by (auto split: option.splits sum.splits)
  have dk1: "distinct_keys (pgws_profile_hash st1)"
    using p1 "2.prems"(2) by (rule distinct_keys_probe_waits)
  show ?case
  proof (cases wp)
    case True
    let ?obs = "observed_keys cfg procs"
    from "2.prems"(3) True
    have fit: "keys_fit cfg (pgws_profile_hash st) (?obs @ passes_keys cfg passes)"
      by simp
    then have fit0: "keys_fit cfg (pgws_profile_hash st) ?obs"
      by (rule keys_fit_prefix)
    from p1 True have p1': "probe_waits wh True cfg procs st = Some (Inr st1)"
      by simp
    have find1: "hash_find K (pgws_profile_hash st1)
        = tally (count_list ?obs K) K (hash_find K (pgws_profile_hash st))"
      using p1' "2.prems"(2) fit0 by (rule probe_waits_profile)
    have keys1: "key ` set (pgws_profile_hash st1) = key ` set (pgws_profile_hash st) \<union> set ?obs"
      using p1' "2.prems"(2) fit0 by (rule probe_waits_keys)
    have fit1: "keys_fit cfg (pgws_profile_hash st1) (passes_keys cfg passes)"
      using fit keys1 by (rule keys_fit_rest)
    have ih: "hash_find K (pgws_profile_hash st')
        = tally (count_list (passes_keys cfg passes) K) K (hash_find K (pgws_profile_hash st1))"
      using "2.IH" [OF p1 refl rest dk1 fit1] .
    show ?thesis
      by (simp add: True ih find1 tally_add)
  next
    case False
    with p1 have same: "pgws_profile_hash st1 = pgws_profile_hash st"
      by (simp add: probe_waits_no_profile)
    from "2.prems"(3) False
    have fit1: "keys_fit cfg (pgws_profile_hash st1) (passes_keys cfg passes)"
      by (simp add: same)
    have ih: "hash_find K (pgws_profile_hash st')
        = tally (count_list (passes_keys cfg passes) K) K (hash_find K (pgws_profile_hash st1))"
      using "2.IH" [OF p1 refl rest dk1 fit1] .
    show ?thesis
      by (simp add: False ih same)
  qed
qed

lemma probe_passes_returns:
  assumes "(\<exists>p \<in> set passes. fst p) \<longrightarrow> 0 < pgwsHistoryBufferSize cfg
             \<and> length (items (pgws_history_ring st)) = pgwsHistoryBufferSize cfg"
    and "distinct_keys (pgws_profile_hash st)"
    and "keys_fit cfg (pgws_profile_hash st) (passes_keys cfg passes)"
  shows "\<exists>st'. probe_passes cfg passes st = Some (Inr st')"
  using assms
proof (induction cfg passes st rule: probe_passes.induct)
  case (1 cfg st)
  then show ?case by simp
next
  case (2 cfg wh wp procs passes st)
  let ?obs = "observed_keys cfg procs"
  have h: "wh \<longrightarrow> 0 < pgwsHistoryBufferSize cfg
      \<and> length (items (pgws_history_ring st)) = pgwsHistoryBufferSize cfg"
    using "2.prems"(1) by simp
  have fit0: "wp \<longrightarrow> keys_fit cfg (pgws_profile_hash st) ?obs"
    using "2.prems"(3) by (auto intro: keys_fit_prefix)
  from probe_waits_returns [OF h "2.prems"(2) fit0]
  obtain st1 where p1: "probe_waits wh wp cfg procs st = Some (Inr st1)"
    and l1: "length (items (pgws_history_ring st1)) = length (items (pgws_history_ring st))"
    by blast
  have dk1: "distinct_keys (pgws_profile_hash st1)"
    using p1 "2.prems"(2) by (rule distinct_keys_probe_waits)
  have h1: "(\<exists>p \<in> set passes. fst p) \<longrightarrow> 0 < pgwsHistoryBufferSize cfg
      \<and> length (items (pgws_history_ring st1)) = pgwsHistoryBufferSize cfg"
    using "2.prems"(1) l1 by simp
  have fit1: "keys_fit cfg (pgws_profile_hash st1) (passes_keys cfg passes)"
  proof (cases wp)
    case True
    with "2.prems"(3)
    have fit: "keys_fit cfg (pgws_profile_hash st) (?obs @ passes_keys cfg passes)"
      by simp
    from p1 True have p1': "probe_waits wh True cfg procs st = Some (Inr st1)"
      by simp
    from fit0 True have f0: "keys_fit cfg (pgws_profile_hash st) ?obs" by simp
    have "key ` set (pgws_profile_hash st1) = key ` set (pgws_profile_hash st) \<union> set ?obs"
      using p1' "2.prems"(2) f0 by (rule probe_waits_keys)
    with fit show ?thesis by (rule keys_fit_rest)
  next
    case False
    with p1 have "pgws_profile_hash st1 = pgws_profile_hash st"
      by (simp add: probe_waits_no_profile)
    with "2.prems"(3) False show ?thesis by simp
  qed
  from "2.IH" [OF p1 refl h1 dk1 fit1] p1 show ?case
    by simp
qed

text \<open>
  C3: with per-process granularity the key of an observation is its process
  identifier, wait-event code and query identifier. A new key gets an entry with
  counter 1 and the initial usage; a repeated key gets its counter incremented and
  the increase constant added to its usage (an addition of doubles), and no other
  entry changes. So after any sequence of passes, from any table with distinct keys,
  in which no eviction runs (every observed key is in the table already, or the keys
  of the table and the observed keys together fit into the table): a key that was not
  in the table and is observed \<open>k \<ge> 1\<close> times has counter \<open>k\<close> and the usage that
  \<open>k - 1\<close> additions of the increase constant make of the initial usage, which is
  initial + (k - 1) * increase as long as \<open>k \<le> 2^53\<close>; a key that was in the table has
  \<open>k\<close> added to its counter and the increase constant added \<open>k\<close> times to its usage;
  the keys of the table are those it had and those observed, each once; and the
  sequence of passes returns when the ring has the configured size or no pass writes
  the history.
\<close>

theorem profile_aggregation:
  assumes "pgwsWhetherProfilePid cfg"
    and "distinct_keys (pgws_profile_hash st)"
    and "keys_fit cfg (pgws_profile_hash st) (passes_keys cfg passes)"
  shows "slot_key cfg p = \<lparr>key_pid = proc_pid p, key_wait_event_info = proc_wait_event_info p,
                          key_queryid = slot_queryid cfg p\<rparr>
    \<and> (\<forall>st' K. probe_passes cfg passes st = Some (Inr st')
           \<and> hash_find K (pgws_profile_hash st) = None
           \<and> 1 \<le> count_list (passes_keys cfg passes) K \<longrightarrow>
         hash_find K (pgws_profile_hash st')
           = Some \<lparr>key = K, counter = count_list (passes_keys cfg passes) K,
                   usage = ((\<lambda>u. double_add u USAGE_INCREASE)
                              ^^ (count_list (passes_keys cfg passes) K - 1)) USAGE_INIT\<rparr>)
    \<and> (\<forall>k. 1 \<le> k \<and> k \<le> 2 ^ 53 \<longrightarrow>
         valof (((\<lambda>u. double_add u USAGE_INCREASE) ^^ (k - 1)) USAGE_INIT)
           = valof USAGE_INIT + real (k - 1) * valof USAGE_INCREASE)
    \<and> (\<forall>st' K e. probe_passes cfg passes st = Some (Inr st')
           \<and> hash_find K (pgws_profile_hash st) = Some e \<longrightarrow>
         hash_find K (pgws_profile_hash st')
           = Some (e\<lparr>counter := counter e + count_list (passes_keys cfg passes) K,
                     usage := ((\<lambda>u. double_add u USAGE_INCREASE)
                                 ^^ count_list (passes_keys cfg passes) K) (usage e)\<rparr>))
    \<and> (\<forall>st'. probe_passes cfg passes st = Some (Inr st') \<longrightarrow>
         distinct_keys (pgws_profile_hash st')
         \<and> key ` set (pgws_profile_hash st')
             = key ` set (pgws_profile_hash st) \<union> set (passes_keys cfg passes))
    \<and> (((\<exists>pass \<in> set passes. fst pass) \<longrightarrow> 0 < pgwsHistoryBufferSize cfg
            \<and> length (items (pgws_history_ring st)) = pgwsHistoryBufferSize cfg) \<longrightarrow>
         (\<exists>st'. probe_passes cfg passes st = Some (Inr st')))
    \<and> (\<forall>tbl'. hash_find (profile_key cfg pid wei qid) tbl = None
           \<and> profile_write cfg pid wei qid tbl = Some tbl' \<longrightarrow>
         hash_find (profile_key cfg pid wei qid) tbl'
           = Some \<lparr>key = profile_key cfg pid wei qid, counter = 1, usage = USAGE_INIT\<rparr>)
    \<and> (\<forall>e. hash_find (profile_key cfg pid wei qid) tbl = Some e \<longrightarrow>
         (\<exists>tbl'. profile_write cfg pid wei qid tbl = Some tbl'
            \<and> (\<forall>K. hash_find K tbl' =
                  (if K = profile_key cfg pid wei qid
                   then Some (e\<lparr>counter := counter e + 1,
                                 usage := double_add (usage e) USAGE_INCREASE\<rparr>)
                   else hash_find K tbl))))"
proof (intro conjI allI impI)
  show "slot_key cfg p = \<lparr>key_pid = proc_pid p, key_wait_event_info = proc_wait_event_info p,
                          key_queryid = slot_queryid cfg p\<rparr>"
    using assms(1) by (simp add: slot_key_def profile_key_def)
next
  fix st' K
  let ?n = "count_list (passes_keys cfg passes) K"
  assume a: "probe_passes cfg passes st = Some (Inr st')
      \<and> hash_find K (pgws_profile_hash st) = None \<and> 1 \<le> ?n"
  then have run: "probe_passes cfg passes st = Some (Inr st')" by simp
  have "hash_find K (pgws_profile_hash st') = tally ?n K (hash_find K (pgws_profile_hash st))"
    using run assms(2,3) by (rule probe_passes_profile)
  with a show "hash_find K (pgws_profile_hash st')
      = Some \<lparr>key = K, counter = ?n,
              usage = ((\<lambda>u. double_add u USAGE_INCREASE) ^^ (?n - 1)) USAGE_INIT\<rparr>"
    by (simp add: tally_def)
next
  fix k :: nat
  assume a: "1 \<le> k \<and> k \<le> 2 ^ 53"
  have "valof USAGE_INIT = real 1"
    by (simp add: valof_USAGE_INIT)
  moreover from a have "1 + (k - 1) \<le> (2::nat) ^ 53" by simp
  ultimately have "valof (((\<lambda>u. double_add u USAGE_INCREASE) ^^ (k - 1)) USAGE_INIT)
      = real (1 + (k - 1))"
    by (rule valof_add_increase)
  then show "valof (((\<lambda>u. double_add u USAGE_INCREASE) ^^ (k - 1)) USAGE_INIT)
      = valof USAGE_INIT + real (k - 1) * valof USAGE_INCREASE"
    by (simp add: valof_USAGE_INIT valof_USAGE_INCREASE)
next
  fix st' K e
  let ?n = "count_list (passes_keys cfg passes) K"
  assume a: "probe_passes cfg passes st = Some (Inr st')
      \<and> hash_find K (pgws_profile_hash st) = Some e"
  then have run: "probe_passes cfg passes st = Some (Inr st')" by simp
  have "hash_find K (pgws_profile_hash st') = tally ?n K (hash_find K (pgws_profile_hash st))"
    using run assms(2,3) by (rule probe_passes_profile)
  with a show "hash_find K (pgws_profile_hash st')
      = Some (e\<lparr>counter := counter e + ?n,
                 usage := ((\<lambda>u. double_add u USAGE_INCREASE) ^^ ?n) (usage e)\<rparr>)"
    by (simp add: tally_def)
next
  fix st'
  assume run: "probe_passes cfg passes st = Some (Inr st')"
  show "distinct_keys (pgws_profile_hash st')"
    using run assms(2)
  proof (induction cfg passes st rule: probe_passes.induct)
    case (1 cfg st)
    then show ?case by simp
  next
    case (2 cfg wh wp procs passes st)
    from "2.prems"(1) obtain st1 where p1: "probe_waits wh wp cfg procs st = Some (Inr st1)"
      and rest: "probe_passes cfg passes st1 = Some (Inr st')"
      by (auto split: option.splits sum.splits)
    have "distinct_keys (pgws_profile_hash st1)"
      using p1 "2.prems"(2) by (rule distinct_keys_probe_waits)
    with "2.IH" [OF p1 refl rest] show ?case .
  qed
  show "key ` set (pgws_profile_hash st')
      = key ` set (pgws_profile_hash st) \<union> set (passes_keys cfg passes)"
    by (rule keys_of_tally) (rule probe_passes_profile [OF run assms(2,3)])
next
  assume "(\<exists>pass \<in> set passes. fst pass) \<longrightarrow> 0 < pgwsHistoryBufferSize cfg
      \<and> length (items (pgws_history_ring st)) = pgwsHistoryBufferSize cfg"
  then show "\<exists>st'. probe_passes cfg passes st = Some (Inr st')"
    using assms(2,3) by (rule probe_passes_returns)
next
  fix tbl'
  let ?k = "profile_key cfg pid wei qid"
  assume a: "hash_find ?k tbl = None \<and> profile_write cfg pid wei qid tbl = Some tbl'"
  then have "hash_find ?k tbl = None" and "profile_write cfg pid wei qid tbl = Some tbl'"
    by simp_all
  from profile_write_new [OF this] obtain t
    where ms: "make_space (pgwsMaxProfileEntries cfg) tbl = Some t"
      and t: "tbl' = t @ [\<lparr>key = ?k, counter = 1, usage = USAGE_INIT\<rparr>]"
    by blast
  from make_space_keys [OF ms] a have "hash_find ?k t = None"
    by (auto simp: hash_find_None_iff)
  then show "hash_find ?k tbl' = Some \<lparr>key = ?k, counter = 1, usage = USAGE_INIT\<rparr>"
    by (simp add: t hash_find_append)
next
  fix e
  let ?k = "profile_key cfg pid wei qid"
  let ?f = "\<lambda>e. e\<lparr>counter := counter e + 1, usage := double_add (usage e) USAGE_INCREASE\<rparr>"
  assume a: "hash_find ?k tbl = Some e"
  then have w: "profile_write cfg pid wei qid tbl = Some (entry_update ?k ?f tbl)"
    by (simp add: profile_write_def Let_def)
  have "hash_find K (entry_update ?k ?f tbl) = (if K = ?k then Some (?f e) else hash_find K tbl)" for K
    using a by (simp add: hash_find_entry_update)
  with w show "\<exists>tbl'. profile_write cfg pid wei qid tbl = Some tbl'
            \<and> (\<forall>K. hash_find K tbl' = (if K = ?k then Some (?f e) else hash_find K tbl))"
    by blast
qed

theorem profile_aggregation_witness:
  "pgwsWhetherProfilePid (example_cfg 3 3)
   \<and> distinct_keys (pgws_profile_hash
        (example_shared [example_item 8, example_item 8, example_item 9] 0
           [example_entry 5 2 2, example_entry 4 7 7]))
   \<and> passes_keys (example_cfg 3 3)
        [(False, True, [example_slot 5 1, example_slot 6 1, example_slot 5 1, example_slot 0 1]),
         (True, False, [example_slot 7 1]),
         (True, True, [example_slot 6 1, example_slot 5 1])]
       = [example_key 5, example_key 6, example_key 5, example_key 6, example_key 5]
   \<and> keys_fit (example_cfg 3 3) [example_entry 5 2 2, example_entry 4 7 7]
        [example_key 5, example_key 6, example_key 5, example_key 6, example_key 5]
   \<and> probe_passes (example_cfg 3 3)
        [(False, True, [example_slot 5 1, example_slot 6 1, example_slot 5 1, example_slot 0 1]),
         (True, False, [example_slot 7 1]),
         (True, True, [example_slot 6 1, example_slot 5 1])]
        (example_shared [example_item 8, example_item 8, example_item 9] 0
           [example_entry 5 2 2, example_entry 4 7 7])
       = Some (Inr (example_shared [example_item 7, example_item 6, example_item 5] 3
                      [example_entry 5 5 5, example_entry 4 7 7, example_entry 6 2 2]))
   \<and> hash_find (example_key 6)
        [example_entry 5 5 5, example_entry 4 7 7, example_entry 6 2 2]
       = Some \<lparr>key = example_key 6, counter = 2,
               usage = ((\<lambda>u. double_add u USAGE_INCREASE) ^^ (2 - 1)) USAGE_INIT\<rparr>
   \<and> valof (((\<lambda>u. double_add u USAGE_INCREASE) ^^ (2 - 1)) USAGE_INIT)
       = valof USAGE_INIT + real (2 - 1) * valof USAGE_INCREASE
   \<and> hash_find (example_key 5)
        [example_entry 5 5 5, example_entry 4 7 7, example_entry 6 2 2]
       = Some ((example_entry 5 2 2)
           \<lparr>counter := counter (example_entry 5 2 2) + 3,
            usage := ((\<lambda>u. double_add u USAGE_INCREASE) ^^ 3) (usage (example_entry 5 2 2))\<rparr>)
   \<and> hash_find (example_key 4)
        [example_entry 5 5 5, example_entry 4 7 7, example_entry 6 2 2]
       = Some ((example_entry 4 7 7)
           \<lparr>counter := counter (example_entry 4 7 7) + 0,
            usage := ((\<lambda>u. double_add u USAGE_INCREASE) ^^ 0) (usage (example_entry 4 7 7))\<rparr>)
   \<and> distinct_keys [example_entry 5 5 5, example_entry 4 7 7, example_entry 6 2 2]
   \<and> key ` set [example_entry 5 5 5, example_entry 4 7 7, example_entry 6 2 2]
       = key ` set [example_entry 5 2 2, example_entry 4 7 7]
         \<union> set [example_key 5, example_key 6, example_key 5, example_key 6, example_key 5]"
proof -
  let ?cfg = "example_cfg 3 3"
  let ?passes = "[(False, True, [example_slot 5 1, example_slot 6 1, example_slot 5 1,
                      example_slot 0 1]),
         (True, False, [example_slot 7 1]),
         (True, True, [example_slot 6 1, example_slot 5 1])]"
  let ?tbl = "[example_entry 5 2 2, example_entry 4 7 7]"
  let ?tbl' = "[example_entry 5 5 5, example_entry 4 7 7, example_entry 6 2 2]"
  let ?st = "example_shared [example_item 8, example_item 8, example_item 9] 0 ?tbl"
  let ?st' = "example_shared [example_item 7, example_item 6, example_item 5] 3 ?tbl'"
  let ?ks = "[example_key 5, example_key 6, example_key 5, example_key 6, example_key 5]"
  have h1: "pgwsWhetherProfilePid ?cfg"
    by (simp add: example_cfg_def)
  have tb: "pgws_profile_hash ?st = ?tbl" and tb': "pgws_profile_hash ?st' = ?tbl'"
    by (simp_all add: example_shared_def)
  have h2: "distinct_keys (pgws_profile_hash ?st)"
    by (simp add: example_shared_def distinct_keys_def example_entry_def example_key_def)
  have pk: "passes_keys ?cfg ?passes = ?ks"
    by (simp add: observed_keys_def slot_skipped_def slot_key_def slot_queryid_def
        profile_key_def example_cfg_def example_slot_def example_key_def)
  have "key ` set ?tbl \<union> set ?ks = {example_key 5, example_key 4, example_key 6}"
    by (auto simp: example_entry_def)
  then have "card (key ` set ?tbl \<union> set ?ks) \<le> 3"
    by (simp add: card_insert_if)
  then have fit: "keys_fit ?cfg ?tbl ?ks"
    by (simp add: keys_fit_def example_cfg_def)
  then have h3: "keys_fit ?cfg (pgws_profile_hash ?st) (passes_keys ?cfg ?passes)"
    by (simp only: tb pk)
  have run: "probe_passes ?cfg ?passes ?st = Some (Inr ?st')"
    by (simp add: probe_slot_def history_write_def profile_write_def Let_def hash_find_def
        hash_enter_def entry_update_def profile_key_def make_space.simps USAGE_INIT_def
        USAGE_INCREASE_def double_add_numerals
        example_cfg_def example_slot_def example_shared_def example_item_def
        example_entry_def example_key_def)
  have c6: "count_list (passes_keys ?cfg ?passes) (example_key 6) = 2"
    and c5: "count_list (passes_keys ?cfg ?passes) (example_key 5) = 3"
    and c4: "count_list (passes_keys ?cfg ?passes) (example_key 4) = 0"
    unfolding pk by (simp_all add: example_key_def)
  have f6: "hash_find (example_key 6) (pgws_profile_hash ?st) = None"
    and f5: "hash_find (example_key 5) (pgws_profile_hash ?st) = Some (example_entry 5 2 2)"
    and f4: "hash_find (example_key 4) (pgws_profile_hash ?st) = Some (example_entry 4 7 7)"
    by (simp_all add: example_shared_def hash_find_def example_entry_def example_key_def)
  note agg = profile_aggregation [where p = "example_slot 5 1" and pid = 5 and wei = 1
      and qid = 0 and tbl = "[]", OF h1 h2 h3]
  note new_key = agg [THEN conjunct2, THEN conjunct1, rule_format]
  note exact = agg [THEN conjunct2, THEN conjunct2, THEN conjunct1, rule_format]
  note old_key = agg [THEN conjunct2, THEN conjunct2, THEN conjunct2, THEN conjunct1, rule_format]
  note keys = agg [THEN conjunct2, THEN conjunct2, THEN conjunct2, THEN conjunct2,
      THEN conjunct1, rule_format]
  from c6 have ge: "1 \<le> count_list (passes_keys ?cfg ?passes) (example_key 6)"
    by simp
  from run f6 ge have "hash_find (example_key 6) (pgws_profile_hash ?st')
      = Some \<lparr>key = example_key 6, counter = count_list (passes_keys ?cfg ?passes) (example_key 6),
              usage = ((\<lambda>u. double_add u USAGE_INCREASE)
                  ^^ (count_list (passes_keys ?cfg ?passes) (example_key 6) - 1)) USAGE_INIT\<rparr>"
    by (intro new_key conjI)
  then have a: "hash_find (example_key 6) ?tbl'
      = Some \<lparr>key = example_key 6, counter = 2,
              usage = ((\<lambda>u. double_add u USAGE_INCREASE) ^^ (2 - 1)) USAGE_INIT\<rparr>"
    by (simp only: c6 tb')
  have "1 \<le> (2::nat) \<and> (2::nat) \<le> 2 ^ 53"
    by simp
  then have b: "valof (((\<lambda>u. double_add u USAGE_INCREASE) ^^ (2 - 1)) USAGE_INIT)
      = valof USAGE_INIT + real (2 - 1) * valof USAGE_INCREASE"
    by (rule exact)
  from run f5 have "hash_find (example_key 5) (pgws_profile_hash ?st')
      = Some ((example_entry 5 2 2)
          \<lparr>counter := counter (example_entry 5 2 2)
              + count_list (passes_keys ?cfg ?passes) (example_key 5),
           usage := ((\<lambda>u. double_add u USAGE_INCREASE)
              ^^ count_list (passes_keys ?cfg ?passes) (example_key 5))
                (usage (example_entry 5 2 2))\<rparr>)"
    by (intro old_key conjI)
  then have c: "hash_find (example_key 5) ?tbl'
      = Some ((example_entry 5 2 2)
          \<lparr>counter := counter (example_entry 5 2 2) + 3,
           usage := ((\<lambda>u. double_add u USAGE_INCREASE) ^^ 3) (usage (example_entry 5 2 2))\<rparr>)"
    by (simp only: c5 tb')
  from run f4 have "hash_find (example_key 4) (pgws_profile_hash ?st')
      = Some ((example_entry 4 7 7)
          \<lparr>counter := counter (example_entry 4 7 7)
              + count_list (passes_keys ?cfg ?passes) (example_key 4),
           usage := ((\<lambda>u. double_add u USAGE_INCREASE)
              ^^ count_list (passes_keys ?cfg ?passes) (example_key 4))
                (usage (example_entry 4 7 7))\<rparr>)"
    by (intro old_key conjI)
  then have d: "hash_find (example_key 4) ?tbl'
      = Some ((example_entry 4 7 7)
          \<lparr>counter := counter (example_entry 4 7 7) + 0,
           usage := ((\<lambda>u. double_add u USAGE_INCREASE) ^^ 0) (usage (example_entry 4 7 7))\<rparr>)"
    by (simp only: c4 tb')
  from run have "distinct_keys (pgws_profile_hash ?st')
      \<and> key ` set (pgws_profile_hash ?st')
          = key ` set (pgws_profile_hash ?st) \<union> set (passes_keys ?cfg ?passes)"
    by (rule keys)
  then have e: "distinct_keys ?tbl' \<and> key ` set ?tbl' = key ` set ?tbl \<union> set ?ks"
    by (simp only: tb tb' pk)
  from h1 h2 pk fit run a b c d e show ?thesis
    by (intro conjI) (erule conjunct1 conjunct2 | assumption)+
qed

section \<open>Scheduling\<close>

lemma int_cast_id:
  assumes "0 \<le> x" and "x < 2147483648"
  shows "int_cast x = x"
proof -
  have "int_cast x = (x + 2147483648) mod 4294967296 - 2147483648"
    by (simp add: int_cast_def int_word_sint)
  also have "(x + 2147483648) mod 4294967296 = x + 2147483648"
    using assms by (intro mod_pos_pos_trivial) simp_all
  finally show ?thesis by simp
qed

lemma div_1000_split:
  fixes d :: int
  shows "d div 1000000 * 1000 + d mod 1000000 div 1000 = d div 1000"
proof -
  define q r where "q = d div 1000000" and "r = d mod 1000000"
  have d: "d = r + (q * 1000) * 1000"
    by (simp add: q_def r_def)
  have "d div 1000 = (r + (q * 1000) * 1000) div 1000"
    by (subst d) (rule refl)
  also have "\<dots> = q * 1000 + r div 1000"
    by (rule div_mult_self1) simp
  finally show ?thesis
    by (simp add: q_def r_def)
qed

lemma millisecs_diff_eq: "millisecs_diff tz1 tz2 = max 0 (tz2 - tz1) div 1000"
proof (cases "tz2 - tz1 \<le> 0")
  case True
  then show ?thesis
    by (simp add: millisecs_diff_def TimestampDifference_def Let_def max_def)
next
  case False
  let ?d = "tz2 - tz1"
  have "?d div 1000000 * 1000 + ?d mod 1000000 div 1000 = ?d div 1000"
    by (rule div_1000_split)
  with False show ?thesis
    by (simp add: millisecs_diff_def TimestampDifference_def Let_def max_def)
qed

lemma millisecs_diff_nonneg: "0 \<le> millisecs_diff tz1 tz2"
  by (simp add: millisecs_diff_eq)


text \<open>The remaining time of an enabled stream, after the reset of its elapsed time.\<close>

lemma stream_timeout:
  assumes "p < 2147483648" and "p \<noteq> 0" and "0 \<le> d"
  shows "(if p \<ge> int_cast (if p \<noteq> 0 \<and> p \<le> d then 0 else d)
          then p - int_cast (if p \<noteq> 0 \<and> p \<le> d then 0 else d) else 0)
         = max 0 (p - (if p \<noteq> 0 \<and> p \<le> d then 0 else d))"
proof (cases "p \<le> d")
  case True
  have "int_cast 0 = 0" by (rule int_cast_id) simp_all
  with True assms show ?thesis by (simp add: max_def)
next
  case False
  with assms have "int_cast d = d" by (intro int_cast_id) simp_all
  with False assms show ?thesis by (simp add: max_def)
qed

lemma sampler_schedule_flags:
  "write_history (sampler_schedule cfg hts pts cur)
     = (pgwsHistoryPeriod cfg \<noteq> 0 \<and> pgwsHistoryPeriod cfg \<le> millisecs_diff hts cur)"
  "write_profile (sampler_schedule cfg hts pts cur)
     = (pgwsProfilePeriod cfg \<noteq> 0 \<and> pgwsProfilePeriod cfg \<le> millisecs_diff pts cur)"
  "history_ts (sampler_schedule cfg hts pts cur)
     = (if write_history (sampler_schedule cfg hts pts cur) then cur else hts)"
  "profile_ts (sampler_schedule cfg hts pts cur)
     = (if write_profile (sampler_schedule cfg hts pts cur) then cur else pts)"
  "history_diff (sampler_schedule cfg hts pts cur)
     = (if write_history (sampler_schedule cfg hts pts cur) then 0 else millisecs_diff hts cur)"
  "profile_diff (sampler_schedule cfg hts pts cur)
     = (if write_profile (sampler_schedule cfg hts pts cur) then 0 else millisecs_diff pts cur)"
  "wl_timeout (sampler_schedule cfg hts pts cur)
     = (pgwsHistoryPeriod cfg \<noteq> 0 \<or> pgwsProfilePeriod cfg \<noteq> 0)"
  by (simp_all add: sampler_schedule_def Let_def)

lemma sampler_schedule_timeouts:
  "history_timeout (sampler_schedule cfg hts pts cur)
     = (if pgwsHistoryPeriod cfg \<ge> int_cast (history_diff (sampler_schedule cfg hts pts cur))
        then pgwsHistoryPeriod cfg - int_cast (history_diff (sampler_schedule cfg hts pts cur))
        else 0)"
  "profile_timeout (sampler_schedule cfg hts pts cur)
     = (if pgwsProfilePeriod cfg \<ge> int_cast (profile_diff (sampler_schedule cfg hts pts cur))
        then pgwsProfilePeriod cfg - int_cast (profile_diff (sampler_schedule cfg hts pts cur))
        else 0)"
  "actual_timeout (sampler_schedule cfg hts pts cur)
     = (if pgwsProfilePeriod cfg \<noteq> 0 \<and> pgwsHistoryPeriod cfg = 0
          then profile_timeout (sampler_schedule cfg hts pts cur)
        else if pgwsHistoryPeriod cfg \<noteq> 0 \<and> pgwsProfilePeriod cfg = 0
          then history_timeout (sampler_schedule cfg hts pts cur)
        else if pgwsHistoryPeriod cfg \<noteq> 0 \<and> pgwsProfilePeriod cfg \<noteq> 0
          then min (history_timeout (sampler_schedule cfg hts pts cur))
                 (profile_timeout (sampler_schedule cfg hts pts cur))
        else 0)"
  by (simp_all add: sampler_schedule_def Let_def)

lemma history_timeout_remaining:
  assumes "pgwsHistoryPeriod cfg < 2147483648" and "pgwsHistoryPeriod cfg \<noteq> 0"
  shows "history_timeout (sampler_schedule cfg hts pts cur)
     = max 0 (pgwsHistoryPeriod cfg - history_diff (sampler_schedule cfg hts pts cur))"
  unfolding sampler_schedule_timeouts sampler_schedule_flags
  using assms millisecs_diff_nonneg [of hts cur] by (rule stream_timeout)

lemma profile_timeout_remaining:
  assumes "pgwsProfilePeriod cfg < 2147483648" and "pgwsProfilePeriod cfg \<noteq> 0"
  shows "profile_timeout (sampler_schedule cfg hts pts cur)
     = max 0 (pgwsProfilePeriod cfg - profile_diff (sampler_schedule cfg hts pts cur))"
  unfolding sampler_schedule_timeouts sampler_schedule_flags
  using assms millisecs_diff_nonneg [of pts cur] by (rule stream_timeout)

text \<open>
  C6: the wait of an iteration. With both periods nonzero the timeout is the minimum
  of the two remaining times (period minus elapsed time, not below 0), with one
  period nonzero it is the remaining time of that stream, and with both periods 0
  the wait has no timeout. The elapsed time of a stream is 0 when the stream has
  just sampled, and the milliseconds since its last sample otherwise. The periods
  are C integers, so below \<open>2^31\<close>.
\<close>

theorem next_sleep_duration:
  assumes "pgwsHistoryPeriod cfg < 2147483648" and "pgwsProfilePeriod cfg < 2147483648"
  shows "(pgwsHistoryPeriod cfg \<noteq> 0 \<and> pgwsProfilePeriod cfg \<noteq> 0 \<longrightarrow>
        wl_timeout (sampler_schedule cfg hts pts cur)
        \<and> actual_timeout (sampler_schedule cfg hts pts cur)
            = min (max 0 (pgwsHistoryPeriod cfg - history_diff (sampler_schedule cfg hts pts cur)))
                  (max 0 (pgwsProfilePeriod cfg - profile_diff (sampler_schedule cfg hts pts cur))))
    \<and> (pgwsHistoryPeriod cfg \<noteq> 0 \<and> pgwsProfilePeriod cfg = 0 \<longrightarrow>
        wl_timeout (sampler_schedule cfg hts pts cur)
        \<and> actual_timeout (sampler_schedule cfg hts pts cur)
            = max 0 (pgwsHistoryPeriod cfg - history_diff (sampler_schedule cfg hts pts cur)))
    \<and> (pgwsHistoryPeriod cfg = 0 \<and> pgwsProfilePeriod cfg \<noteq> 0 \<longrightarrow>
        wl_timeout (sampler_schedule cfg hts pts cur)
        \<and> actual_timeout (sampler_schedule cfg hts pts cur)
            = max 0 (pgwsProfilePeriod cfg - profile_diff (sampler_schedule cfg hts pts cur)))
    \<and> (pgwsHistoryPeriod cfg = 0 \<and> pgwsProfilePeriod cfg = 0 \<longrightarrow>
        \<not> wl_timeout (sampler_schedule cfg hts pts cur))
    \<and> history_diff (sampler_schedule cfg hts pts cur)
        = (if write_history (sampler_schedule cfg hts pts cur) then 0
           else millisecs_diff hts cur)
    \<and> profile_diff (sampler_schedule cfg hts pts cur)
        = (if write_profile (sampler_schedule cfg hts pts cur) then 0
           else millisecs_diff pts cur)"
proof (intro conjI impI)
  assume a: "pgwsHistoryPeriod cfg \<noteq> 0 \<and> pgwsProfilePeriod cfg \<noteq> 0"
  then show "wl_timeout (sampler_schedule cfg hts pts cur)"
    by (simp add: sampler_schedule_flags)
  from a assms show "actual_timeout (sampler_schedule cfg hts pts cur)
            = min (max 0 (pgwsHistoryPeriod cfg - history_diff (sampler_schedule cfg hts pts cur)))
                  (max 0 (pgwsProfilePeriod cfg - profile_diff (sampler_schedule cfg hts pts cur)))"
    by (simp add: sampler_schedule_timeouts(3) history_timeout_remaining [of cfg hts pts cur]
        profile_timeout_remaining [of cfg hts pts cur])
next
  assume a: "pgwsHistoryPeriod cfg \<noteq> 0 \<and> pgwsProfilePeriod cfg = 0"
  then show "wl_timeout (sampler_schedule cfg hts pts cur)"
    by (simp add: sampler_schedule_flags)
  from a assms show "actual_timeout (sampler_schedule cfg hts pts cur)
            = max 0 (pgwsHistoryPeriod cfg - history_diff (sampler_schedule cfg hts pts cur))"
    by (simp add: sampler_schedule_timeouts(3) history_timeout_remaining [of cfg hts pts cur])
next
  assume a: "pgwsHistoryPeriod cfg = 0 \<and> pgwsProfilePeriod cfg \<noteq> 0"
  then show "wl_timeout (sampler_schedule cfg hts pts cur)"
    by (simp add: sampler_schedule_flags)
  from a assms show "actual_timeout (sampler_schedule cfg hts pts cur)
            = max 0 (pgwsProfilePeriod cfg - profile_diff (sampler_schedule cfg hts pts cur))"
    by (simp add: sampler_schedule_timeouts(3) profile_timeout_remaining [of cfg hts pts cur])
next
  assume "pgwsHistoryPeriod cfg = 0 \<and> pgwsProfilePeriod cfg = 0"
  then show "\<not> wl_timeout (sampler_schedule cfg hts pts cur)"
    by (simp add: sampler_schedule_flags)
next
  show "history_diff (sampler_schedule cfg hts pts cur)
        = (if write_history (sampler_schedule cfg hts pts cur) then 0
           else millisecs_diff hts cur)"
    by (rule sampler_schedule_flags)
  show "profile_diff (sampler_schedule cfg hts pts cur)
        = (if write_profile (sampler_schedule cfg hts pts cur) then 0
           else millisecs_diff pts cur)"
    by (rule sampler_schedule_flags)
qed


theorem next_sleep_duration_witness:
  "pgwsHistoryPeriod (example_cfg 4 2) < 2147483648
   \<and> pgwsProfilePeriod (example_cfg 4 2) < 2147483648
   \<and> wl_timeout (sampler_schedule (example_cfg 4 2) 0 0 130000)
   \<and> history_diff (sampler_schedule (example_cfg 4 2) 0 0 130000) = 0
   \<and> profile_diff (sampler_schedule (example_cfg 4 2) 0 0 130000) = 130
   \<and> actual_timeout (sampler_schedule (example_cfg 4 2) 0 0 130000) = 100
   \<and> actual_timeout (sampler_schedule ((example_cfg 4 2)\<lparr>pgwsProfilePeriod := 0\<rparr>) 0 0 30000) = 70
   \<and> actual_timeout (sampler_schedule ((example_cfg 4 2)\<lparr>pgwsHistoryPeriod := 0\<rparr>) 0 0 30000) = 220
   \<and> \<not> wl_timeout (sampler_schedule
          ((example_cfg 4 2)\<lparr>pgwsHistoryPeriod := 0, pgwsProfilePeriod := 0\<rparr>) 0 0 30000)"
  using next_sleep_duration [of "example_cfg 4 2" 0 0 130000]
    next_sleep_duration [of "(example_cfg 4 2)\<lparr>pgwsProfilePeriod := 0\<rparr>" 0 0 30000]
    next_sleep_duration [of "(example_cfg 4 2)\<lparr>pgwsHistoryPeriod := 0\<rparr>" 0 0 30000]
    next_sleep_duration
      [of "(example_cfg 4 2)\<lparr>pgwsHistoryPeriod := 0, pgwsProfilePeriod := 0\<rparr>" 0 0 30000]
  by (simp add: sampler_schedule_flags millisecs_diff_eq example_cfg_def)

text \<open>
  C5: in an iteration \<open>write_history\<close> is set exactly when the history period is
  positive and the milliseconds elapsed since the last history sample have reached
  it, and \<open>write_profile\<close> likewise. Afterwards the timestamp of a stream is the
  current time when that stream has sampled and unchanged otherwise, and the probe
  has run with exactly these flags. The flag and the timestamp of a stream do not
  depend on the period or the timestamp of the other stream; a period of 0 disables
  its stream. The periods are not negative.
\<close>

theorem independent_cadences:
  assumes "0 \<le> pgwsHistoryPeriod cfg" and "0 \<le> pgwsProfilePeriod cfg"
  shows "write_history (sampler_schedule cfg hts pts cur)
        = (0 < pgwsHistoryPeriod cfg \<and> pgwsHistoryPeriod cfg \<le> millisecs_diff hts cur)
    \<and> write_profile (sampler_schedule cfg hts pts cur)
        = (0 < pgwsProfilePeriod cfg \<and> pgwsProfilePeriod cfg \<le> millisecs_diff pts cur)
    \<and> millisecs_diff hts cur = max 0 (cur - hts) div 1000
    \<and> millisecs_diff pts cur = max 0 (cur - pts) div 1000
    \<and> history_ts (sampler_schedule cfg hts pts cur)
        = (if write_history (sampler_schedule cfg hts pts cur) then cur else hts)
    \<and> profile_ts (sampler_schedule cfg hts pts cur)
        = (if write_profile (sampler_schedule cfg hts pts cur) then cur else pts)
    \<and> write_history (sampler_schedule (cfg\<lparr>pgwsProfilePeriod := pp'\<rparr>) hts pts' cur)
        = write_history (sampler_schedule cfg hts pts cur)
    \<and> history_ts (sampler_schedule (cfg\<lparr>pgwsProfilePeriod := pp'\<rparr>) hts pts' cur)
        = history_ts (sampler_schedule cfg hts pts cur)
    \<and> write_profile (sampler_schedule (cfg\<lparr>pgwsHistoryPeriod := hp'\<rparr>) hts' pts cur)
        = write_profile (sampler_schedule cfg hts pts cur)
    \<and> profile_ts (sampler_schedule (cfg\<lparr>pgwsHistoryPeriod := hp'\<rparr>) hts' pts cur)
        = profile_ts (sampler_schedule cfg hts pts cur)
    \<and> (pgwsHistoryPeriod cfg = 0 \<longrightarrow> \<not> write_history (sampler_schedule cfg hts pts cur))
    \<and> (pgwsProfilePeriod cfg = 0 \<longrightarrow> \<not> write_profile (sampler_schedule cfg hts pts cur))
    \<and> (\<forall>it st'. collector_iteration cfg procs hts pts cur st = Some (Inr (it, st')) \<longrightarrow>
          it = sampler_schedule cfg hts pts cur
          \<and> (if write_history it \<or> write_profile it
              then probe_waits (write_history it) (write_profile it) cfg procs st = Some (Inr st')
              else st' = st))"
proof -
  have iter: "it = sampler_schedule cfg hts pts cur
      \<and> (if write_history it \<or> write_profile it
          then probe_waits (write_history it) (write_profile it) cfg procs st = Some (Inr st')
          else st' = st)"
    if "collector_iteration cfg procs hts pts cur st = Some (Inr (it, st'))" for it st'
    using that
    by (auto simp: collector_iteration_def Let_def split: if_splits option.splits sum.splits)
  from assms iter show ?thesis
    by (simp add: sampler_schedule_flags millisecs_diff_eq less_le)
qed


theorem independent_cadences_witness:
  "0 \<le> pgwsHistoryPeriod (example_cfg 4 2) \<and> 0 \<le> pgwsProfilePeriod (example_cfg 4 2)
   \<and> write_history (sampler_schedule (example_cfg 4 2) 0 0 100000)
   \<and> \<not> write_profile (sampler_schedule (example_cfg 4 2) 0 0 100000)
   \<and> history_ts (sampler_schedule (example_cfg 4 2) 0 0 100000) = 100000
   \<and> profile_ts (sampler_schedule (example_cfg 4 2) 0 0 100000) = 0
   \<and> write_history (sampler_schedule (example_cfg 4 2) 100000 0 200000)
   \<and> \<not> write_profile (sampler_schedule (example_cfg 4 2) 100000 0 200000)
   \<and> \<not> write_history (sampler_schedule (example_cfg 4 2) 200000 0 250000)
   \<and> write_profile (sampler_schedule (example_cfg 4 2) 200000 0 250000)
   \<and> history_ts (sampler_schedule (example_cfg 4 2) 200000 0 250000) = 200000
   \<and> profile_ts (sampler_schedule (example_cfg 4 2) 200000 0 250000) = 250000
   \<and> collector_iteration (example_cfg 4 2) [example_slot 5 1] 0 0 100000
        (example_shared [example_item 8] 0 [])
       = Some (Inr (sampler_schedule (example_cfg 4 2) 0 0 100000,
                    example_shared [example_item 5] 1 []))
   \<and> probe_waits True False (example_cfg 4 2) [example_slot 5 1]
        (example_shared [example_item 8] 0 [])
       = Some (Inr (example_shared [example_item 5] 1 []))"
proof -
  let ?cfg = "example_cfg 4 2"
  let ?st = "example_shared [example_item 8] 0 []"
  let ?st1 = "example_shared [example_item 5] 1 []"
  have h: "0 \<le> pgwsHistoryPeriod ?cfg" "0 \<le> pgwsProfilePeriod ?cfg"
    by (simp_all add: example_cfg_def)
  have pass: "probe_waits True False ?cfg [example_slot 5 1] ?st = Some (Inr ?st1)"
    by (simp add: probe_slot_def history_write_def Let_def
        example_cfg_def example_slot_def example_shared_def example_item_def)
  have flags: "write_history (sampler_schedule ?cfg 0 0 100000)"
    "\<not> write_profile (sampler_schedule ?cfg 0 0 100000)"
    by (simp_all add: sampler_schedule_flags millisecs_diff_eq example_cfg_def)
  have iter: "collector_iteration ?cfg [example_slot 5 1] 0 0 100000 ?st
       = Some (Inr (sampler_schedule ?cfg 0 0 100000, ?st1))"
    using pass flags by (simp add: collector_iteration_def Let_def)
  note t1 = independent_cadences [OF h, where hts = 0 and pts = 0 and cur = 100000
      and procs = "[example_slot 5 1]" and st = ?st
      and pp' = 0 and pts' = 0 and hp' = 0 and hts' = 0]
  note t2 = independent_cadences [OF h, where hts = 100000 and pts = 0 and cur = 200000
      and procs = "[]" and st = ?st
      and pp' = 0 and pts' = 0 and hp' = 0 and hts' = 0]
  note t3 = independent_cadences [OF h, where hts = 200000 and pts = 0 and cur = 250000
      and procs = "[]" and st = ?st
      and pp' = 0 and pts' = 0 and hp' = 0 and hts' = 0]
  have a1: "write_history (sampler_schedule ?cfg 0 0 100000)
      \<and> \<not> write_profile (sampler_schedule ?cfg 0 0 100000)
      \<and> history_ts (sampler_schedule ?cfg 0 0 100000) = 100000
      \<and> profile_ts (sampler_schedule ?cfg 0 0 100000) = 0"
    using t1 by (simp add: example_cfg_def)
  have a2: "write_history (sampler_schedule ?cfg 100000 0 200000)
      \<and> \<not> write_profile (sampler_schedule ?cfg 100000 0 200000)"
    using t2 by (simp add: example_cfg_def)
  have a3: "\<not> write_history (sampler_schedule ?cfg 200000 0 250000)
      \<and> write_profile (sampler_schedule ?cfg 200000 0 250000)
      \<and> history_ts (sampler_schedule ?cfg 200000 0 250000) = 200000
      \<and> profile_ts (sampler_schedule ?cfg 200000 0 250000) = 250000"
    using t3 by (simp add: example_cfg_def)
  from h a1 a2 a3 iter pass show ?thesis
    by (intro conjI) simp_all
qed

end
